theory Spec2Isabelle
  imports Main "HOL-Library.Word" "HOL-Library.Multiset"
begin

unbundle bit_operations_syntax

section \<open>Basic types\<close>

text \<open>
  Bytes of a \<open>std::string\<close> are 8-bit words, \<open>uint64_t\<close> values are 64-bit words
  (arithmetic wraps, shifts truncate). Sizes, counts and vector indices are natural
  numbers: they are bounded by the length of a string or vector held in memory.
\<close>

type_synonym byte = "8 word"
type_synonym u64 = "64 word"
type_synonym bytes = "byte list"

definition MAX_U64 :: u64 where
  "MAX_U64 = - 1"

text \<open>
  The messages of \<open>negentropy::err\<close>, one constructor per message of the source. A
  function that can throw returns \<open>Inl\<close> of the message or \<open>Inr\<close> of its results. After an
  exception the source leaves the object as mutated up to the throw (\<open>initiate\<close> has set
  \<open>isInitiator\<close> before it checks the frame size limit, \<open>reconcileAux\<close> may have appended
  to the caller's vectors); the model gives no object in that case.
\<close>

datatype err =
    IdTooBig
  | IdSizeInvalid
  | AlreadySealed
  | NotSealed
  | FrameSizeLimitTooSmall
  | InitiatorNotAskingForHaveNeed
  | NonInitiatorAskingForHaveNeed
  | UnexpectedIdListResponse
  | UnexpectedMode
  | ParseEndsPrematurely
  | PrematureEndOfVarint

section \<open>Codec: decoding\<close>

text \<open>
  \<open>getBytes(encoded, n)\<close>: the first \<open>n\<close> bytes and the advanced view, or the error
  \<open>parse ends prematurely\<close>.
\<close>

definition getBytes :: "bytes \<Rightarrow> nat \<Rightarrow> err + (bytes \<times> bytes)" where
  "getBytes encoded n =
     (if length encoded < n then Inl ParseEndsPrematurely
      else Inr (take n encoded, drop n encoded))"

text \<open>
  \<open>decodeVarInt\<close>: the \<open>while (1)\<close> loop with the accumulator \<open>res\<close> as an argument.
  The source widens a \<open>char\<close> to \<open>uint64_t\<close>; only the bits selected by the masks
  \<open>0x7F\<close> and \<open>0x80\<close> are used, so the signedness of \<open>char\<close> makes no difference
  (lemma \<open>char_signedness_irrelevant\<close> below).
\<close>

fun decodeVarInt_loop :: "u64 \<Rightarrow> bytes \<Rightarrow> err + (u64 \<times> bytes)" where
  "decodeVarInt_loop res [] = Inl PrematureEndOfVarint"
| "decodeVarInt_loop res (b # encoded) =
     (let byte = (ucast b :: u64);
          res' = push_bit 7 res OR (byte AND 0x7F)
      in if byte AND 0x80 = 0 then Inr (res', encoded)
         else decodeVarInt_loop res' encoded)"

definition decodeVarInt :: "bytes \<Rightarrow> err + (u64 \<times> bytes)" where
  "decodeVarInt encoded = decodeVarInt_loop 0 encoded"

text \<open>
  \<open>decodeTimestampIn\<close>: returns the timestamp, the advanced view and the new
  \<open>lastTimestampIn\<close> (which the source sets to the returned timestamp).
\<close>

definition decodeTimestampIn :: "bytes \<Rightarrow> u64 \<Rightarrow> err + (u64 \<times> bytes \<times> u64)" where
  "decodeTimestampIn encoded lastTimestampIn =
     (case decodeVarInt encoded of
        Inl e \<Rightarrow> Inl e
      | Inr (v, encoded') \<Rightarrow>
          (let timestamp = (if v = 0 then MAX_U64 else v - 1);
               timestamp = timestamp + lastTimestampIn;
               timestamp = (if timestamp < lastTimestampIn then MAX_U64 else timestamp)
           in Inr (timestamp, encoded', timestamp)))"

section \<open>Codec: encoding\<close>

text \<open>
  \<open>encodeVarInt\<close>: the \<open>while (n)\<close> loop pushes the low seven bits and shifts; the
  string is then reversed and every byte but the last gets \<open>0x80\<close>.
\<close>

function encodeVarInt_loop :: "u64 \<Rightarrow> bytes \<Rightarrow> bytes" where
  "encodeVarInt_loop n o' =
     (if n = 0 then o'
      else encodeVarInt_loop (drop_bit 7 n) (o' @ [ucast (n AND 0x7F)]))"
  by pat_completeness auto
termination
proof (relation "measure (\<lambda>(n, o'). unat n)")
  show "wf (measure (\<lambda>(n :: u64, o' :: bytes). unat n))" by simp
next
  fix n :: u64 and o' :: bytes
  assume "n \<noteq> 0"
  then have "0 < unat n" by (simp add: unat_gt_0)
  then have "unat n div 2 ^ 7 < unat n" by simp
  then have "unat (drop_bit 7 n) < unat n"
    using unat_drop_bit_eq [of 7 n] drop_bit_eq_div [of 7 "unat n"] by simp
  then show "((drop_bit 7 n, o' @ [ucast (n AND 0x7F)]), (n, o')) \<in> measure (\<lambda>(n, o'). unat n)"
    by simp
qed

declare encodeVarInt_loop.simps [simp del]

text \<open>
  The loop \<open>for (i = 0; i < o.size() - 1; i++) o[i] |= 0x80\<close>. The string is never
  empty here (\<open>n \<noteq> 0\<close> pushed at least one byte).
\<close>

definition setContinuationBits :: "bytes \<Rightarrow> bytes" where
  "setContinuationBits o' =
     map (\<lambda>b. b OR 0x80) (take (length o' - 1) o') @ drop (length o' - 1) o'"

definition encodeVarInt :: "u64 \<Rightarrow> bytes" where
  "encodeVarInt n =
     (if n = 0 then [0]
      else setContinuationBits (rev (encodeVarInt_loop n [])))"

text \<open>
  \<open>encodeTimestampOut\<close>: returns the bytes and the new \<open>lastTimestampOut\<close>. The
  subtraction is on \<open>uint64_t\<close> and wraps.
\<close>

definition encodeTimestampOut :: "u64 \<Rightarrow> u64 \<Rightarrow> bytes \<times> u64" where
  "encodeTimestampOut timestamp lastTimestampOut =
     (if timestamp = MAX_U64 then (encodeVarInt 0, MAX_U64)
      else (encodeVarInt (timestamp - lastTimestampOut + 1), timestamp))"

text \<open>
  A frame carries several delta-encoded timestamps, the state threaded from one call to
  the next (as \<open>buildOutput\<close> does with \<open>lastTimestampOut\<close> and \<open>reconcileAux\<close>
  with \<open>lastTimestampIn\<close>). These two drivers thread it over a whole sequence.
\<close>

fun encodeTimestamps :: "u64 list \<Rightarrow> u64 \<Rightarrow> bytes" where
  "encodeTimestamps [] lastTimestampOut = []"
| "encodeTimestamps (t # ts) lastTimestampOut =
     (case encodeTimestampOut t lastTimestampOut of
        (bs, lastTimestampOut') \<Rightarrow> bs @ encodeTimestamps ts lastTimestampOut')"

fun decodeTimestamps :: "nat \<Rightarrow> bytes \<Rightarrow> u64 \<Rightarrow> err + (u64 list \<times> bytes)" where
  "decodeTimestamps 0 encoded lastTimestampIn = Inr ([], encoded)"
| "decodeTimestamps (Suc n) encoded lastTimestampIn =
     (case decodeTimestampIn encoded lastTimestampIn of
        Inl e \<Rightarrow> Inl e
      | Inr (t, encoded', lastTimestampIn') \<Rightarrow>
          (case decodeTimestamps n encoded' lastTimestampIn' of
             Inl e \<Rightarrow> Inl e
           | Inr (ts, rest) \<Rightarrow> Inr (t # ts, rest)))"


section \<open>XorElem\<close>

text \<open>
  \<open>struct XorElem { uint64_t timestamp; uint64_t idSize; char id[32]; }\<close>. The buffer
  \<open>id\<close> is the field \<open>id'\<close>, always 32 bytes long; \<open>idSize\<close> is the logical length.
\<close>

record XorElem =
  timestamp :: u64
  idSize :: nat
  id' :: bytes

text \<open>\<open>XorElem()\<close>: timestamp 0, idSize 32, zeroed buffer.\<close>

definition XorElem_default :: XorElem where
  "XorElem_default = \<lparr>timestamp = 0, idSize = 32, id' = replicate 32 0\<rparr>"

text \<open>
  \<open>XorElem(uint64_t timestamp, std::string_view id_)\<close>: throws \<open>id too big\<close> above 32
  bytes, otherwise zeroes the buffer and copies the id to its front.
\<close>

definition XorElem_of_id :: "u64 \<Rightarrow> bytes \<Rightarrow> err + XorElem" where
  "XorElem_of_id ts id_in =
     (if length id_in > 32 then Inl IdTooBig
      else Inr \<lparr>timestamp = ts, idSize = length id_in,
                id' = id_in @ replicate (32 - length id_in) 0\<rparr>)"

text \<open>\<open>XorElem(uint64_t timestamp, uint64_t idSize)\<close>: a zeroed id of the given length.\<close>

definition XorElem_of_size :: "u64 \<Rightarrow> nat \<Rightarrow> err + XorElem" where
  "XorElem_of_size ts n =
     (if n > 32 then Inl IdTooBig
      else Inr \<lparr>timestamp = ts, idSize = n, id' = replicate 32 0\<rparr>)"

text \<open>
  The source writes \<open>XorElem(0, "")\<close> and \<open>XorElem(MAX_U64, "")\<close>: the string
  constructor on the empty string, whose size check always passes
  (lemma \<open>XorElem_of_id_empty\<close>).
\<close>

definition XorElem_empty :: "u64 \<Rightarrow> XorElem" where
  "XorElem_empty ts = \<lparr>timestamp = ts, idSize = 0, id' = replicate 32 0\<rparr>"

text \<open>\<open>getId()\<close> and \<open>getId(subSize)\<close> (\<open>substr(0, subSize)\<close> clamps to the size).\<close>

definition getId :: "XorElem \<Rightarrow> bytes" where
  "getId e = take (idSize e) (id' e)"

definition getId_sub :: "XorElem \<Rightarrow> nat \<Rightarrow> bytes" where
  "getId_sub e subSize = take subSize (getId e)"

text \<open>\<open>operator^=\<close>: XOR of the 32 buffer bytes; timestamp and idSize are untouched.\<close>

definition xorAssign :: "XorElem \<Rightarrow> XorElem \<Rightarrow> XorElem" where
  "xorAssign e other = e\<lparr>id' := map2 (XOR) (id' e) (id' other)\<rparr>"

text \<open>
  Comparison of two \<open>std::string_view\<close>s: \<open>char_traits<char>::compare\<close> compares the
  bytes as unsigned values over the common length, then the shorter view is the smaller.
\<close>

fun bytes_less :: "bytes \<Rightarrow> bytes \<Rightarrow> bool" where
  "bytes_less [] [] = False"
| "bytes_less [] (y # ys) = True"
| "bytes_less (x # xs) [] = False"
| "bytes_less (x # xs) (y # ys) = (if x \<noteq> y then x < y else bytes_less xs ys)"

text \<open>\<open>XorElem::operator==\<close> and \<open>operator<\<close>.\<close>

definition XorElem_eq :: "XorElem \<Rightarrow> XorElem \<Rightarrow> bool" where
  "XorElem_eq a b = (timestamp a = timestamp b \<and> getId a = getId b)"

definition XorElem_less :: "XorElem \<Rightarrow> XorElem \<Rightarrow> bool" where
  "XorElem_less a b =
     (if timestamp a \<noteq> timestamp b then timestamp a < timestamp b
      else bytes_less (getId a) (getId b))"

text \<open>
  The loops \<open>for (auto i = lower; i < upper; ++i)\<close> of the source run over the elements
  \<open>items[lower]\<close> .. \<open>items[upper - 1]\<close>.
\<close>

definition slice :: "'a list \<Rightarrow> nat \<Rightarrow> nat \<Rightarrow> 'a list" where
  "slice xs lower upper = take (upper - lower) (drop lower xs)"

text \<open>\<open>XorElem ourXorSet; for (...) ourXorSet ^= *i;\<close>\<close>

definition xorRange :: "XorElem list \<Rightarrow> nat \<Rightarrow> nat \<Rightarrow> XorElem" where
  "xorRange xs lower upper = foldl xorAssign XorElem_default (slice xs lower upper)"

section \<open>The Negentropy object\<close>

record BoundOutput =
  start :: XorElem
  end' :: XorElem
  payload :: bytes

record Negentropy =
  idSize :: nat
  items :: "XorElem list"
  sealed :: bool
  isInitiator :: bool
  frameSizeLimit :: nat
  pendingOutputs :: "BoundOutput list"

text \<open>The constructor \<open>Negentropy(uint64_t idSize)\<close>.\<close>

definition Negentropy_new :: "nat \<Rightarrow> err + Negentropy" where
  "Negentropy_new n =
     (if n < 8 \<or> n > 32 then Inl IdSizeInvalid
      else Inr \<lparr>idSize = n, items = [], sealed = False, isInitiator = False,
                frameSizeLimit = 0, pendingOutputs = []\<rparr>)"

definition addItem :: "Negentropy \<Rightarrow> u64 \<Rightarrow> bytes \<Rightarrow> err + Negentropy" where
  "addItem this createdAt id_in =
     (if sealed this then Inl AlreadySealed
      else case XorElem_of_id createdAt id_in of
             Inl e \<Rightarrow> Inl e
           | Inr x \<Rightarrow> Inr (this\<lparr>items := items this @ [x]\<rparr>))"

text \<open>
  \<open>std::sort\<close> with \<open>operator<\<close>, as an insertion sort. Two elements that \<open>operator<\<close>
  does not order have the same timestamp, length and id bytes, and the constructor
  zeroes the rest of the buffer, so they are the same value: every correct sort
  returns the same vector.
\<close>

fun insert_sorted :: "XorElem \<Rightarrow> XorElem list \<Rightarrow> XorElem list" where
  "insert_sorted x [] = [x]"
| "insert_sorted x (y # ys) =
     (if XorElem_less x y then x # y # ys else y # insert_sorted x ys)"

definition sort_items :: "XorElem list \<Rightarrow> XorElem list" where
  "sort_items xs = foldr insert_sorted xs []"

definition seal :: "Negentropy \<Rightarrow> err + Negentropy" where
  "seal this =
     (if sealed this then Inl AlreadySealed
      else Inr (this\<lparr>items := sort_items (rev (items this)), sealed := True\<rparr>))"

section \<open>Bounds on the wire\<close>

text \<open>
  \<open>decodeBound\<close>: timestamp, length, bytes, then the \<open>XorElem\<close> constructor (which
  throws above 32 bytes). Returns the bound, the advanced view and \<open>lastTimestampIn\<close>.
\<close>

definition decodeBound :: "bytes \<Rightarrow> u64 \<Rightarrow> err + (XorElem \<times> bytes \<times> u64)" where
  "decodeBound encoded lastIn =
     (case decodeTimestampIn encoded lastIn of
        Inl e \<Rightarrow> Inl e
      | Inr (ts, encoded1, lastIn') \<Rightarrow>
          (case decodeVarInt encoded1 of
             Inl e \<Rightarrow> Inl e
           | Inr (len, encoded2) \<Rightarrow>
               (case getBytes encoded2 (unat len) of
                  Inl e \<Rightarrow> Inl e
                | Inr (bs, encoded3) \<Rightarrow>
                    (case XorElem_of_id ts bs of
                       Inl e \<Rightarrow> Inl e
                     | Inr bound \<Rightarrow> Inr (bound, encoded3, lastIn')))))"

text \<open>
  \<open>encodeBound\<close>: the timestamp, then \<open>encodeVarInt(bound.idSize)\<close>, then
  \<open>bound.getId(idSize)\<close> with the session's \<open>idSize\<close>.
\<close>

definition encodeBound :: "Negentropy \<Rightarrow> XorElem \<Rightarrow> u64 \<Rightarrow> bytes \<times> u64" where
  "encodeBound this bound lastOut =
     (case encodeTimestampOut (timestamp bound) lastOut of
        (tsBytes, lastOut') \<Rightarrow>
          (tsBytes @ encodeVarInt (of_nat (XorElem.idSize bound))
             @ getId_sub bound (idSize this), lastOut'))"

text \<open>
  \<open>getMinimalBound\<close>. The loop indexes the two views with \<open>i < idSize\<close> (the session's)
  without looking at their sizes; \<open>std::string_view::operator[]\<close> does no bounds check
  and both views start at the 32-byte buffer, so the byte read is the buffer's.
\<close>

function getMinimalBound_loop :: "nat \<Rightarrow> bytes \<Rightarrow> bytes \<Rightarrow> nat \<Rightarrow> nat \<Rightarrow> nat" where
  "getMinimalBound_loop n currKey prevKey i sharedPrefixBytes =
     (if i < n then
        (if currKey ! i \<noteq> prevKey ! i then sharedPrefixBytes
         else getMinimalBound_loop n currKey prevKey (i + 1) (sharedPrefixBytes + 1))
      else sharedPrefixBytes)"
  by pat_completeness auto
termination
  by (relation "measure (\<lambda>(n, currKey, prevKey, i, sharedPrefixBytes). n - i)") auto

declare getMinimalBound_loop.simps [simp del]

definition getMinimalBound :: "Negentropy \<Rightarrow> XorElem \<Rightarrow> XorElem \<Rightarrow> err + XorElem" where
  "getMinimalBound this prev cur =
     (if timestamp cur \<noteq> timestamp prev then Inr (XorElem_empty (timestamp cur))
      else
        (let sharedPrefixBytes =
               getMinimalBound_loop (idSize this) (id' cur) (id' prev) 0 0
         in XorElem_of_id (timestamp cur) (take (sharedPrefixBytes + 1) (getId cur))))"





section \<open>Range splitting\<close>

text \<open>
  A read of \<open>items\<close> through an iterator. In the last bucket of \<open>splitRange\<close> the source
  dereferences \<open>curr == upper\<close>, which is one past the last element when the range ends
  at \<open>items.end()\<close>; the bound computed from it is overwritten right after the loop.
  The model reads a default element there.
\<close>

definition readItem :: "XorElem list \<Rightarrow> nat \<Rightarrow> XorElem" where
  "readItem xs i = (if i < length xs then xs ! i else XorElem_default)"

text \<open>
  The bucket loop \<open>for (uint64_t i = 0; i < buckets; i++)\<close> with \<open>buckets = 16\<close>; \<open>cur\<close> (the source's \<open>curr\<close>)
  is an index into \<open>items\<close>.
\<close>

function splitRange_loop ::
  "Negentropy \<Rightarrow> nat \<Rightarrow> nat \<Rightarrow> XorElem \<Rightarrow> nat \<Rightarrow> nat \<Rightarrow> XorElem \<Rightarrow> BoundOutput list
     \<Rightarrow> err + BoundOutput list" where
  "splitRange_loop this itemsPerBucket bucketsWithExtra lowerBound i cur prevBound outs =
     (if i < 16 then
        (let bucketEnd = cur + itemsPerBucket + (if i < bucketsWithExtra then 1 else 0);
             ourXorSet = xorRange (items this) cur bucketEnd;
             bucketPayload = encodeVarInt 1 @ getId_sub ourXorSet (idSize this)
         in case getMinimalBound this (readItem (items this) (bucketEnd - 1))
                   (readItem (items this) bucketEnd) of
              Inl e \<Rightarrow> Inl e
            | Inr bound \<Rightarrow>
                splitRange_loop this itemsPerBucket bucketsWithExtra lowerBound (i + 1)
                  bucketEnd bound
                  (outs @ [\<lparr>start = (if i = 0 then lowerBound else prevBound),
                             end' = bound, payload = bucketPayload\<rparr>]))
      else Inr outs)"
  by pat_completeness auto
termination
  by (relation "measure (\<lambda>(this, ipb, bwe, lb, i, cur, pb, outs). 16 - i)") auto

declare splitRange_loop.simps [simp del]

definition splitRange ::
  "Negentropy \<Rightarrow> nat \<Rightarrow> nat \<Rightarrow> XorElem \<Rightarrow> XorElem \<Rightarrow> BoundOutput list
     \<Rightarrow> err + BoundOutput list" where
  "splitRange this lower upper lowerBound upperBound outs =
     (let numElems = upper - lower in
      if numElems < 16 * 2 then
        (let idListPayload = encodeVarInt 2 @ encodeVarInt (of_nat numElems)
               @ concat (map (\<lambda>e. getId_sub e (idSize this)) (slice (items this) lower upper))
         in Inr (outs @ [\<lparr>start = lowerBound, end' = upperBound, payload = idListPayload\<rparr>]))
      else
        (let itemsPerBucket = numElems div 16;
             bucketsWithExtra = numElems mod 16
         in case splitRange_loop this itemsPerBucket bucketsWithExtra lowerBound 0 lower
                   (readItem (items this) lower) outs of
              Inl e \<Rightarrow> Inl e
            | Inr outs' \<Rightarrow> Inr (butlast outs' @ [(last outs')\<lparr>end' := upperBound\<rparr>])))"





section \<open>Building a frame\<close>

text \<open>
  One iteration of the loop of \<open>buildOutput\<close> builds the string \<open>o\<close>: a Skip record up to
  \<open>p.start\<close> when \<open>currBound != p.start\<close>, then the bound \<open>p.end\<close> and the payload. Returns
  \<open>o\<close> and \<open>lastTimestampOut\<close> after the two \<open>encodeBound\<close> calls.
\<close>

definition buildRecord :: "Negentropy \<Rightarrow> BoundOutput \<Rightarrow> XorElem \<Rightarrow> u64 \<Rightarrow> bytes \<times> u64" where
  "buildRecord this p currBound lastTimestampOut =
     (case (if \<not> XorElem_eq currBound (start p)
            then (case encodeBound this (start p) lastTimestampOut of
                    (b, l) \<Rightarrow> (b @ encodeVarInt 0, l))
            else ([], lastTimestampOut)) of
        (o1, lastOut1) \<Rightarrow>
          (case encodeBound this (end' p) lastOut1 of
             (b2, lastOut2) \<Rightarrow> (o1 @ b2 @ payload p, lastOut2)))"

text \<open>
  The \<open>while (pendingOutputs.size())\<close> loop of \<open>buildOutput\<close>; returns the frame and the
  outputs still pending. \<open>currBound = p.end\<close> reads the element just popped.
\<close>

fun buildOutput_loop ::
  "Negentropy \<Rightarrow> BoundOutput list \<Rightarrow> bytes \<Rightarrow> XorElem \<Rightarrow> u64 \<Rightarrow> bytes \<times> BoundOutput list" where
  "buildOutput_loop this [] output currBound lastTimestampOut = (output, [])"
| "buildOutput_loop this (p # pending) output currBound lastTimestampOut =
     (if XorElem_less (start p) currBound then (output, p # pending)
      else
        (case buildRecord this p currBound lastTimestampOut of
           (o', lastOut') \<Rightarrow>
             (if frameSizeLimit this \<noteq> 0 \<and> length output + length o' > frameSizeLimit this
              then (output, p # pending)
              else buildOutput_loop this pending (output @ o') (end' p) lastOut')))"

text \<open>
  The strings \<open>o\<close> that a queue of outputs becomes when its outputs are emitted one after
  the other, starting from \<open>currBound\<close> and \<open>lastTimestampOut\<close>: the records of a frame.
\<close>

fun frameRecords :: "Negentropy \<Rightarrow> BoundOutput list \<Rightarrow> XorElem \<Rightarrow> u64 \<Rightarrow> bytes list" where
  "frameRecords this [] currBound lastTimestampOut = []"
| "frameRecords this (p # pending) currBound lastTimestampOut =
     (case buildRecord this p currBound lastTimestampOut of
        (o', lastOut') \<Rightarrow> o' # frameRecords this pending (end' p) lastOut')"

definition buildOutput :: "Negentropy \<Rightarrow> bytes \<times> Negentropy" where
  "buildOutput this =
     (case buildOutput_loop this (pendingOutputs this) [] (XorElem_empty 0) 0 of
        (output, pending) \<Rightarrow> (output, this\<lparr>pendingOutputs := pending\<rparr>))"

text \<open>\<open>initiate(frameSizeLimit_)\<close>: the frame and the object after the call.\<close>

definition initiate :: "Negentropy \<Rightarrow> nat \<Rightarrow> err + (bytes \<times> Negentropy)" where
  "initiate this frameSizeLimit_in =
     (if \<not> sealed this then Inl NotSealed
      else if frameSizeLimit_in \<noteq> 0 \<and> frameSizeLimit_in < 1024 then Inl FrameSizeLimitTooSmall
      else
        (let this1 = this\<lparr>isInitiator := True, frameSizeLimit := frameSizeLimit_in\<rparr> in
         case splitRange this1 0 (length (items this1)) (XorElem_empty 0)
                (XorElem_empty MAX_U64) (pendingOutputs this1) of
           Inl e \<Rightarrow> Inl e
         | Inr outs \<Rightarrow> Inr (buildOutput (this1\<lparr>pendingOutputs := outs\<rparr>))))"


section \<open>Bit fields\<close>

text \<open>
  \<open>encodeBitField\<close>: \<open>(max + 8) / 8\<close> zero bytes, then \<open>bitField[ind / 8] |= 1 << ind % 8\<close>
  for every index.
\<close>

definition encodeBitField :: "nat list \<Rightarrow> bytes" where
  "encodeBitField inds =
     (if inds = [] then []
      else
        (let max_ind = fold max inds (hd inds) in
         fold (\<lambda>ind bitField.
                 bitField[ind div 8 := (bitField ! (ind div 8)) OR push_bit (ind mod 8) 1])
           inds (replicate ((max_ind + 8) div 8) 0)))"

text \<open>\<open>bitFieldLookup\<close>: false out of range, otherwise the bit \<open>ind % 8\<close> of byte \<open>ind / 8\<close>.\<close>

definition bitFieldLookup :: "bytes \<Rightarrow> nat \<Rightarrow> bool" where
  "bitFieldLookup bitField ind =
     (if (ind + 8) div 8 > length bitField then False
      else (bitField ! (ind div 8)) AND push_bit (ind mod 8) 1 \<noteq> 0)"

section \<open>Consuming a frame\<close>

text \<open>
  \<open>std::upper_bound(prevIndex, items.end(), currBound)\<close>: the first position at or after
  \<open>first\<close> whose element is greater than the value, or the end. (The items are sorted
  once sealed, which is what the binary search of the library relies on.)
\<close>

function upper_bound :: "XorElem list \<Rightarrow> nat \<Rightarrow> XorElem \<Rightarrow> nat" where
  "upper_bound xs first val =
     (if first < length xs then
        (if XorElem_less val (xs ! first) then first
         else upper_bound xs (first + 1) val)
      else first)"
  by pat_completeness auto
termination
  by (relation "measure (\<lambda>(xs, first, val). length xs - first)") auto

declare upper_bound.simps [simp del]

text \<open>
  \<open>std::unordered_map<std::string, TheirElem> theirElems\<close> as an association list in
  insertion order. \<open>emplace\<close> leaves the map unchanged when the key is already there.
  The order in which the source iterates over the map is unspecified; the model iterates
  in insertion order.
\<close>

record TheirElem =
  offset :: nat
  onBothSides :: bool

type_synonym theirElemsMap = "(bytes \<times> TheirElem) list"

definition emplace :: "theirElemsMap \<Rightarrow> bytes \<Rightarrow> TheirElem \<Rightarrow> theirElemsMap" where
  "emplace m k v = (case map_of m k of None \<Rightarrow> m @ [(k, v)] | Some _ \<Rightarrow> m)"

text \<open>\<open>e->second.onBothSides = true\<close> for the entry found under the key.\<close>

definition markOnBothSides :: "theirElemsMap \<Rightarrow> bytes \<Rightarrow> theirElemsMap" where
  "markOnBothSides m k =
     map (\<lambda>(k', v). if k' = k then (k', v\<lparr>onBothSides := True\<rparr>) else (k', v)) m"

text \<open>
  \<open>for (uint64_t i = 0; i < numIds; i++) theirElems.emplace(getBytes(query, idSize),
  TheirElem{i, false})\<close>.
\<close>

function readTheirElems ::
  "Negentropy \<Rightarrow> nat \<Rightarrow> nat \<Rightarrow> bytes \<Rightarrow> theirElemsMap \<Rightarrow> err + (bytes \<times> theirElemsMap)" where
  "readTheirElems this numIds i q theirElems =
     (if i < numIds then
        (case getBytes q (idSize this) of
           Inl e \<Rightarrow> Inl e
         | Inr (e, q') \<Rightarrow>
             readTheirElems this numIds (i + 1) q'
               (emplace theirElems e \<lparr>offset = i, onBothSides = False\<rparr>))
      else Inr (q, theirElems))"
  by pat_completeness auto
termination
  by (relation "measure (\<lambda>(this, numIds, i, q, theirElems). numIds - i)") auto

declare readTheirElems.simps [simp del]

text \<open>
  The walk over our items of the range: an id the peer did not list goes to \<open>haveIds\<close>
  (initiator) or \<open>responseHaveIds\<close> (responder); an id it listed is marked.
\<close>

fun matchItems ::
  "Negentropy \<Rightarrow> XorElem list \<Rightarrow> theirElemsMap \<Rightarrow> bytes list \<Rightarrow> bytes list
     \<Rightarrow> theirElemsMap \<times> bytes list \<times> bytes list" where
  "matchItems this [] theirElems have responseHaveIds = (theirElems, have, responseHaveIds)"
| "matchItems this (it # its) theirElems have responseHaveIds =
     (case map_of theirElems (getId it) of
        None \<Rightarrow>
          (if isInitiator this
           then matchItems this its theirElems (have @ [getId it]) responseHaveIds
           else matchItems this its theirElems have (responseHaveIds @ [getId it]))
      | Some v \<Rightarrow>
          matchItems this its (markOnBothSides theirElems (getId it)) have responseHaveIds)"

text \<open>
  The walk over \<open>theirElems\<close>: an entry not seen on both sides goes to \<open>needIds\<close>
  (initiator) or, by its offset, to \<open>responseNeedIndices\<close> (responder).
\<close>

fun collectNeeds ::
  "Negentropy \<Rightarrow> theirElemsMap \<Rightarrow> bytes list \<Rightarrow> nat list \<Rightarrow> bytes list \<times> nat list" where
  "collectNeeds this [] need responseNeedIndices = (need, responseNeedIndices)"
| "collectNeeds this ((k, v) # theirElems) need responseNeedIndices =
     (if \<not> onBothSides v then
        (if isInitiator this
         then collectNeeds this theirElems (need @ [k]) responseNeedIndices
         else collectNeeds this theirElems need (responseNeedIndices @ [offset v]))
      else collectNeeds this theirElems need responseNeedIndices)"

text \<open>\<open>for (i < numIds) needIds.emplace_back(getBytes(query, idSize))\<close> of mode 3.\<close>

function readNeedIds ::
  "Negentropy \<Rightarrow> nat \<Rightarrow> nat \<Rightarrow> bytes \<Rightarrow> bytes list \<Rightarrow> err + (bytes \<times> bytes list)" where
  "readNeedIds this numIds i q need =
     (if i < numIds then
        (case getBytes q (idSize this) of
           Inl e \<Rightarrow> Inl e
         | Inr (e, q') \<Rightarrow> readNeedIds this numIds (i + 1) q' (need @ [e]))
      else Inr (q, need))"
  by pat_completeness auto
termination
  by (relation "measure (\<lambda>(this, numIds, i, q, need). numIds - i)") auto

declare readNeedIds.simps [simp del]

text \<open>
  \<open>for (it = lower; it < upper; ++it) if (bitFieldLookup(bitField, it - lower))
  haveIds.emplace_back(it->getId())\<close>; \<open>j\<close> is \<open>it - lower\<close>.
\<close>

fun collectHaves :: "bytes \<Rightarrow> XorElem list \<Rightarrow> nat \<Rightarrow> bytes list \<Rightarrow> bytes list" where
  "collectHaves bitField [] j have = have"
| "collectHaves bitField (it # its) j have =
     collectHaves bitField its (j + 1)
       (if bitFieldLookup bitField j then have @ [getId it] else have)"

text \<open>The local variables of the \<open>while (query.size())\<close> loop of \<open>reconcileAux\<close>.\<close>

record ReconcileLoop =
  query :: bytes
  prevBound :: XorElem
  prevIndex :: nat
  lastTimestampIn :: u64
  outputs :: "BoundOutput list"
  haveIds :: "bytes list"
  needIds :: "bytes list"

text \<open>
  The three modes with a body. Each returns the advanced view and the updated
  \<open>outputs\<close>, \<open>haveIds\<close> and \<open>needIds\<close>.
\<close>

definition modeFingerprint ::
  "Negentropy \<Rightarrow> ReconcileLoop \<Rightarrow> bytes \<Rightarrow> XorElem \<Rightarrow> nat \<Rightarrow> nat
     \<Rightarrow> err + (bytes \<times> BoundOutput list \<times> bytes list \<times> bytes list)" where
  "modeFingerprint this s q currBound lower upper =
     (case getBytes q (idSize this) of
        Inl e \<Rightarrow> Inl e
      | Inr (bs, q') \<Rightarrow>
          (case XorElem_of_id 0 bs of
             Inl e \<Rightarrow> Inl e
           | Inr theirXorSet \<Rightarrow>
               (let ourXorSet = xorRange (items this) lower upper in
                if getId theirXorSet \<noteq> getId_sub ourXorSet (idSize this) then
                  (case splitRange this lower upper (prevBound s) currBound (outputs s) of
                     Inl e \<Rightarrow> Inl e
                   | Inr outs \<Rightarrow> Inr (q', outs, haveIds s, needIds s))
                else Inr (q', outputs s, haveIds s, needIds s))))"

definition modeIdList ::
  "Negentropy \<Rightarrow> ReconcileLoop \<Rightarrow> bytes \<Rightarrow> XorElem \<Rightarrow> nat \<Rightarrow> nat
     \<Rightarrow> err + (bytes \<times> BoundOutput list \<times> bytes list \<times> bytes list)" where
  "modeIdList this s q currBound lower upper =
     (case decodeVarInt q of
        Inl e \<Rightarrow> Inl e
      | Inr (numIds, q1) \<Rightarrow>
          (case readTheirElems this (unat numIds) 0 q1 [] of
             Inl e \<Rightarrow> Inl e
           | Inr (q2, theirElems) \<Rightarrow>
               (case matchItems this (slice (items this) lower upper) theirElems (haveIds s) [] of
                  (theirElems', have, responseHaveIds) \<Rightarrow>
                    (case collectNeeds this theirElems' (needIds s) [] of
                       (need, responseNeedIndices) \<Rightarrow>
                         (if \<not> isInitiator this then
                            (let bitField = encodeBitField responseNeedIndices;
                                 responsePayload = encodeVarInt 3
                                   @ encodeVarInt (of_nat (length responseHaveIds))
                                   @ concat responseHaveIds
                                   @ encodeVarInt (of_nat (length bitField))
                                   @ bitField
                             in Inr (q2, outputs s @ [\<lparr>start = prevBound s, end' = currBound,
                                                      payload = responsePayload\<rparr>], have, need))
                          else Inr (q2, outputs s, have, need))))))"

definition modeIdListResponse ::
  "Negentropy \<Rightarrow> ReconcileLoop \<Rightarrow> bytes \<Rightarrow> XorElem \<Rightarrow> nat \<Rightarrow> nat
     \<Rightarrow> err + (bytes \<times> BoundOutput list \<times> bytes list \<times> bytes list)" where
  "modeIdListResponse this s q currBound lower upper =
     (if \<not> isInitiator this then Inl UnexpectedIdListResponse
      else
        (case decodeVarInt q of
           Inl e \<Rightarrow> Inl e
         | Inr (numIds, q1) \<Rightarrow>
             (case readNeedIds this (unat numIds) 0 q1 (needIds s) of
                Inl e \<Rightarrow> Inl e
              | Inr (q2, need) \<Rightarrow>
                  (case decodeVarInt q2 of
                     Inl e \<Rightarrow> Inl e
                   | Inr (bitFieldSize, q3) \<Rightarrow>
                       (case getBytes q3 (unat bitFieldSize) of
                          Inl e \<Rightarrow> Inl e
                        | Inr (bitField, q4) \<Rightarrow>
                            Inr (q4, outputs s,
                                 collectHaves bitField (slice (items this) lower upper) 0 (haveIds s),
                                 need))))))"

text \<open>One iteration of the loop: one record of the frame.\<close>

definition reconcileRecord :: "Negentropy \<Rightarrow> ReconcileLoop \<Rightarrow> err + ReconcileLoop" where
  "reconcileRecord this s =
     (case decodeBound (query s) (lastTimestampIn s) of
        Inl e \<Rightarrow> Inl e
      | Inr (currBound, q1, lastIn') \<Rightarrow>
          (case decodeVarInt q1 of
             Inl e \<Rightarrow> Inl e
           | Inr (mode, q2) \<Rightarrow>
               (let lower = prevIndex s;
                    upper = upper_bound (items this) (prevIndex s) currBound
                in case (if mode = 0 then Inr (q2, outputs s, haveIds s, needIds s)
                         else if mode = 1 then modeFingerprint this s q2 currBound lower upper
                         else if mode = 2 then modeIdList this s q2 currBound lower upper
                         else if mode = 3 then modeIdListResponse this s q2 currBound lower upper
                         else Inl UnexpectedMode) of
                     Inl e \<Rightarrow> Inl e
                   | Inr (q3, outs, have, need) \<Rightarrow>
                       Inr \<lparr>query = q3, prevBound = currBound, prevIndex = upper,
                            lastTimestampIn = lastIn', outputs = outs,
                            haveIds = have, needIds = need\<rparr>)))"


text \<open>
  Every iteration consumes at least the byte of a varint, so the loop terminates on
  every input.
\<close>


lemma decodeVarInt_loop_consumes:
  "decodeVarInt_loop r q = Inr (v, q') \<Longrightarrow> length q' < length q"
  by (induction q arbitrary: r) (auto simp: Let_def split: if_splits, fastforce)

lemma decodeVarInt_consumes:
  "decodeVarInt q = Inr (v, q') \<Longrightarrow> length q' < length q"
  unfolding decodeVarInt_def by (rule decodeVarInt_loop_consumes)

lemma getBytes_consumes:
  "getBytes q n = Inr (bs, q') \<Longrightarrow> length q' \<le> length q"
  by (auto simp: getBytes_def split: if_splits)

lemma decodeTimestampIn_consumes:
  "decodeTimestampIn q l = Inr (t, q', l') \<Longrightarrow> length q' < length q"
  by (auto simp: decodeTimestampIn_def Let_def split: sum.splits dest: decodeVarInt_consumes)

lemma decodeBound_consumes:
  "decodeBound q l = Inr (b, q', l') \<Longrightarrow> length q' < length q"
  unfolding decodeBound_def
  by (auto split: sum.splits
      dest!: decodeVarInt_consumes decodeTimestampIn_consumes getBytes_consumes)

lemma readTheirElems_consumes:
  "readTheirElems this n i q m = Inr (q', m') \<Longrightarrow> length q' \<le> length q"
proof (induction this n i q m rule: readTheirElems.induct)
  case (1 this numIds i q theirElems)
  show ?case
  proof (cases "i < numIds")
    case True
    with "1.prems" obtain e q1 where g: "getBytes q (idSize this) = Inr (e, q1)"
      and r: "readTheirElems this numIds (i + 1) q1
                (emplace theirElems e \<lparr>offset = i, onBothSides = False\<rparr>) = Inr (q', m')"
      by (subst (asm) readTheirElems.simps) (auto split: sum.splits)
    from "1.IH" [OF True g refl r] getBytes_consumes [OF g]
    show ?thesis by simp
  next
    case False
    with "1.prems" show ?thesis by (subst (asm) readTheirElems.simps) simp
  qed
qed

lemma readNeedIds_consumes:
  "readNeedIds this n i q need = Inr (q', need') \<Longrightarrow> length q' \<le> length q"
proof (induction this n i q need rule: readNeedIds.induct)
  case (1 this numIds i q need)
  show ?case
  proof (cases "i < numIds")
    case True
    with "1.prems" obtain e q1 where g: "getBytes q (idSize this) = Inr (e, q1)"
      and r: "readNeedIds this numIds (i + 1) q1 (need @ [e]) = Inr (q', need')"
      by (subst (asm) readNeedIds.simps) (auto split: sum.splits)
    from "1.IH" [OF True g refl r] getBytes_consumes [OF g]
    show ?thesis by simp
  next
    case False
    with "1.prems" show ?thesis by (subst (asm) readNeedIds.simps) simp
  qed
qed

lemma modeFingerprint_consumes:
  "modeFingerprint this s q b lo up = Inr (q', outs, h, n) \<Longrightarrow> length q' \<le> length q"
  unfolding modeFingerprint_def
  by (auto simp: Let_def split: sum.splits if_splits dest: getBytes_consumes)

lemma modeIdList_consumes:
  "modeIdList this s q b lo up = Inr (q', outs, h, n) \<Longrightarrow> length q' \<le> length q"
  unfolding modeIdList_def
  by (auto simp: Let_def split: sum.splits if_splits prod.splits
      dest!: decodeVarInt_consumes readTheirElems_consumes)

lemma modeIdListResponse_consumes:
  "modeIdListResponse this s q b lo up = Inr (q', outs, h, n) \<Longrightarrow> length q' \<le> length q"
  unfolding modeIdListResponse_def
  by (auto simp: Let_def split: sum.splits if_splits prod.splits
      dest!: decodeVarInt_consumes readNeedIds_consumes getBytes_consumes)

lemma reconcileRecord_consumes:
  assumes "reconcileRecord this s = Inr s'"
  shows "length (query s') < length (query s)"
proof -
  from assms obtain currBound q1 lastIn' mode q2 q3 outs h n where
    db: "decodeBound (query s) (lastTimestampIn s) = Inr (currBound, q1, lastIn')"
    and dv: "decodeVarInt q1 = Inr (mode, q2)"
    and body: "(if mode = 0 then Inr (q2, outputs s, haveIds s, needIds s)
                else if mode = 1 then modeFingerprint this s q2 currBound (prevIndex s)
                       (upper_bound (items this) (prevIndex s) currBound)
                else if mode = 2 then modeIdList this s q2 currBound (prevIndex s)
                       (upper_bound (items this) (prevIndex s) currBound)
                else if mode = 3 then modeIdListResponse this s q2 currBound (prevIndex s)
                       (upper_bound (items this) (prevIndex s) currBound)
                else Inl UnexpectedMode) = Inr (q3, outs, h, n)"
    and s': "query s' = q3"
    unfolding reconcileRecord_def
    by (auto simp: Let_def split: sum.splits prod.splits)
  from body have "length q3 \<le> length q2"
    by (auto split: if_splits
        dest: modeFingerprint_consumes modeIdList_consumes modeIdListResponse_consumes)
  with decodeBound_consumes [OF db] decodeVarInt_consumes [OF dv] s'
  show ?thesis by simp
qed


text \<open>The \<open>while (query.size())\<close> loop.\<close>

function reconcileAux_loop :: "Negentropy \<Rightarrow> ReconcileLoop \<Rightarrow> err + ReconcileLoop" where
  "reconcileAux_loop this s =
     (if query s = [] then Inr s
      else case reconcileRecord this s of
             Inl e \<Rightarrow> Inl e
           | Inr s' \<Rightarrow> reconcileAux_loop this s')"
  by pat_completeness auto
termination
  by (relation "measure (\<lambda>(this, s). length (query s))")
     (auto dest: reconcileRecord_consumes)

declare reconcileAux_loop.simps [simp del]


text \<open>
  The final loop of \<open>reconcileAux\<close> moves \<open>outputs\<close>, last element first, to the front of
  \<open>pendingOutputs\<close>.
\<close>

function prependOutputs :: "BoundOutput list \<Rightarrow> BoundOutput list \<Rightarrow> BoundOutput list" where
  "prependOutputs outs pending =
     (if outs = [] then pending
      else prependOutputs (butlast outs) (last outs # pending))"
  by pat_completeness auto
termination
  by (relation "measure (\<lambda>(outs, pending). length outs)") auto

declare prependOutputs.simps [simp del]

text \<open>The locals of \<open>reconcileAux\<close> as initialised before the loop.\<close>

definition reconcileStart :: "bytes \<Rightarrow> bytes list \<Rightarrow> bytes list \<Rightarrow> ReconcileLoop" where
  "reconcileStart q have need =
     \<lparr>query = q, prevBound = XorElem_empty 0, prevIndex = 0, lastTimestampIn = 0,
      outputs = [], haveIds = have, needIds = need\<rparr>"

text \<open>
  The states the loop passes through: \<open>reconcileSteps this s s'\<close> holds when the loop,
  started in \<open>s\<close>, reaches \<open>s'\<close> after some number of records.
\<close>

inductive reconcileSteps :: "Negentropy \<Rightarrow> ReconcileLoop \<Rightarrow> ReconcileLoop \<Rightarrow> bool"
  for this :: Negentropy where
  steps_refl: "reconcileSteps this s s"
| steps_step: "reconcileSteps this s s' \<Longrightarrow> query s' \<noteq> [] \<Longrightarrow>
     reconcileRecord this s' = Inr s'' \<Longrightarrow> reconcileSteps this s s''"

text \<open>The mode of the record at the head of the remaining query, as the loop decodes it.\<close>

definition nextMode :: "ReconcileLoop \<Rightarrow> err + u64" where
  "nextMode s =
     (case decodeBound (query s) (lastTimestampIn s) of
        Inl e \<Rightarrow> Inl e
      | Inr (currBound, q1, lastIn') \<Rightarrow>
          (case decodeVarInt q1 of
             Inl e \<Rightarrow> Inl e
           | Inr (mode, q2) \<Rightarrow> Inr mode))"

text \<open>
  \<open>reconcileAux\<close>: the object after the call (only \<open>pendingOutputs\<close> changes) and the
  caller's \<open>haveIds\<close> and \<open>needIds\<close> vectors. An exception leaves no result.
\<close>

definition reconcileAux ::
  "Negentropy \<Rightarrow> bytes \<Rightarrow> bytes list \<Rightarrow> bytes list
     \<Rightarrow> err + (Negentropy \<times> bytes list \<times> bytes list)" where
  "reconcileAux this q have need =
     (if \<not> sealed this then Inl NotSealed
      else
        (case reconcileAux_loop this (reconcileStart q have need) of
           Inl e \<Rightarrow> Inl e
         | Inr s \<Rightarrow>
             Inr (this\<lparr>pendingOutputs := prependOutputs (outputs s) (pendingOutputs this)\<rparr>,
                  haveIds s, needIds s)))"

text \<open>
  The two public overloads: \<open>reconcile(query)\<close> of the responder, and
  \<open>reconcile(query, haveIds, needIds)\<close> of the initiator. Each returns the frame and the
  object after the call; the second also the two vectors.
\<close>

definition reconcile :: "Negentropy \<Rightarrow> bytes \<Rightarrow> err + (bytes \<times> Negentropy)" where
  "reconcile this q =
     (if isInitiator this then Inl InitiatorNotAskingForHaveNeed
      else
        (case reconcileAux this q [] [] of
           Inl e \<Rightarrow> Inl e
         | Inr (this', have, need) \<Rightarrow> Inr (buildOutput this')))"

definition reconcile_haveNeed ::
  "Negentropy \<Rightarrow> bytes \<Rightarrow> bytes list \<Rightarrow> bytes list
     \<Rightarrow> err + (bytes \<times> Negentropy \<times> bytes list \<times> bytes list)" where
  "reconcile_haveNeed this q have need =
     (if \<not> isInitiator this then Inl NonInitiatorAskingForHaveNeed
      else
        (case reconcileAux this q have need of
           Inl e \<Rightarrow> Inl e
         | Inr (this', have', need') \<Rightarrow>
             (case buildOutput this' of
                (output, this'') \<Rightarrow> Inr (output, this'', have', need'))))"


section \<open>Scenario states\<close>

text \<open>
  A peer constructed with \<open>idSize = n\<close> and sealed with no items (lemma \<open>new_seal\<close>
  derives it from the constructor and \<open>seal\<close>).
\<close>

definition emptySealed :: "nat \<Rightarrow> Negentropy" where
  "emptySealed n = \<lparr>idSize = n, items = [], sealed = True, isInitiator = False,
                frameSizeLimit = 0, pendingOutputs = []\<rparr>"


text \<open>
  An initiator with \<open>frameSizeLimit = 1024\<close> and two pending outputs of 1002 and 102
  bytes on the wire.
\<close>

definition cappedPeer :: Negentropy where
  "cappedPeer = \<lparr>idSize = 8, items = [], sealed = True, isInitiator = True,
     frameSizeLimit = 1024,
     pendingOutputs =
       [\<lparr>start = XorElem_empty 0, end' = XorElem_empty 5, payload = replicate 1000 7\<rparr>,
        \<lparr>start = XorElem_empty 5, end' = XorElem_empty MAX_U64, payload = replicate 100 7\<rparr>]\<rparr>"









text \<open>
  The map after the walk over our items: the entries whose key is the id of one of the
  items walked are marked.
\<close>

definition marked :: "bytes set \<Rightarrow> theirElemsMap \<Rightarrow> theirElemsMap" where
  "marked S m = map (\<lambda>(k, v). (k, v\<lparr>onBothSides := onBothSides v \<or> k \<in> S\<rparr>)) m"

section \<open>Properties of the codec\<close>


lemma char_signedness_irrelevant:
  "(scast (b :: byte) :: u64) AND 0x7F = ucast b AND 0x7F"
  "(scast (b :: byte) :: u64) AND 0x80 = ucast b AND 0x80"
proof -
  have m: "(0x7F :: u64) = mask 7" by (simp add: mask_eq_exp_minus_1)
  have p: "(0x80 :: u64) = push_bit 7 1" by simp
  show "(scast (b :: byte) :: u64) AND 0x7F = ucast b AND 0x7F"
    unfolding m by (rule bit_eqI) (auto simp: bit_simps min_def)
  show "(scast (b :: byte) :: u64) AND 0x80 = ucast b AND 0x80"
  proof (rule bit_eqI)
    fix n
    have "bit (0x80 :: u64) n \<longleftrightarrow> n = 7"
      using bit_exp_iff [of 7 n, where ?'a = u64] by auto
    then show "bit ((scast b :: u64) AND 0x80) n \<longleftrightarrow> bit ((ucast b :: u64) AND 0x80) n"
      by (auto simp: bit_simps min_def)
  qed
qed

lemma recombine7: "push_bit 7 (drop_bit 7 (n :: u64)) OR (n AND 0x7F) = n"
proof -
  have "(0x7F :: u64) = mask 7" by (simp add: mask_eq_exp_minus_1)
  then show ?thesis by (simp add: bit_eq_iff bit_simps) (auto simp: bit_simps)
qed

lemma low7_ucast: "(ucast (ucast (n AND (0x7F::u64)) :: byte) :: u64) AND 0x7F = n AND 0x7F"
proof -
  have "(0x7F :: u64) = mask 7" by (simp add: mask_eq_exp_minus_1)
  then show ?thesis by (simp add: bit_eq_iff bit_simps) (auto simp: bit_simps)
qed

lemma cont_set: "(ucast ((b::byte) OR 0x80) :: u64) AND 0x80 \<noteq> 0"
proof -
  have "bit ((ucast (b OR 0x80) :: u64) AND 0x80) 7"
    by (simp add: bit_simps)
  then show ?thesis by auto
qed

lemma cont_low: "(ucast ((b::byte) OR 0x80) :: u64) AND 0x7F = ucast b AND 0x7F"
proof -
  have "(0x7F :: u64) = mask 7" by (simp add: mask_eq_exp_minus_1)
  moreover have "(0x80 :: byte) = push_bit 7 1" by simp
  ultimately show ?thesis by (simp only: bit_eq_iff bit_simps) (auto simp: bit_simps)
qed

lemma digit_clear: "(ucast (ucast (n AND (0x7F::u64)) :: byte) :: u64) AND 0x80 = 0"
proof -
  have "(0x7F :: u64) = mask 7" by (simp add: mask_eq_exp_minus_1)
  moreover have "(0x80 :: u64) = push_bit 7 1" by simp
  ultimately show ?thesis by (simp only: bit_eq_iff bit_simps) (auto simp: bit_simps)
qed

lemma decode_cont_prefix:
  "decodeVarInt_loop r (map (\<lambda>b. b OR 0x80) hs @ tl') =
   decodeVarInt_loop (foldl (\<lambda>r b. push_bit 7 r OR (ucast b AND 0x7F)) r hs) tl'"
  by (induction hs arbitrary: r) (simp_all add: cont_set cont_low Let_def)

lemma unat_drop7_less: "(n :: u64) \<noteq> 0 \<Longrightarrow> unat (drop_bit 7 n) < unat n"
proof -
  assume "n \<noteq> 0"
  then have "0 < unat n" by (simp add: unat_gt_0)
  then have "unat n div 2 ^ 7 < unat n" by simp
  then show ?thesis
    using unat_drop_bit_eq [of 7 n] drop_bit_eq_div [of 7 "unat n"] by simp
qed

lemma loop_acc: "encodeVarInt_loop n acc = acc @ encodeVarInt_loop n []"
proof (induction "unat n" arbitrary: n acc rule: less_induct)
  case less
  show ?case
  proof (cases "n = 0")
    case True then show ?thesis by (simp add: encodeVarInt_loop.simps)
  next
    case False
    let ?d = "ucast (n AND 0x7F) :: byte"
    let ?m = "drop_bit 7 n"
    have ih: "\<And>a. encodeVarInt_loop ?m a = a @ encodeVarInt_loop ?m []"
      using less [OF unat_drop7_less [OF False]] .
    have "encodeVarInt_loop n acc = encodeVarInt_loop ?m (acc @ [?d])"
      using False by (subst encodeVarInt_loop.simps) simp
    also have "\<dots> = acc @ ([?d] @ encodeVarInt_loop ?m [])"
      by (subst ih) simp
    also have "[?d] @ encodeVarInt_loop ?m [] = encodeVarInt_loop ?m ([] @ [?d])"
      by (subst (2) ih) simp
    also have "\<dots> = encodeVarInt_loop n []"
      using False by (subst (2) encodeVarInt_loop.simps) simp
    finally show ?thesis .
  qed
qed

lemma loop_unfold:
  "n \<noteq> 0 \<Longrightarrow> encodeVarInt_loop n [] = ucast (n AND 0x7F) # encodeVarInt_loop (drop_bit 7 n) []"
  by (subst encodeVarInt_loop.simps, subst loop_acc) simp

lemma loop_zero: "encodeVarInt_loop 0 acc = acc"
  by (simp add: encodeVarInt_loop.simps)

lemma fold_digits:
  "foldl (\<lambda>r b. push_bit 7 r OR (ucast b AND 0x7F)) r (rev (encodeVarInt_loop m []))
     = push_bit (7 * length (encodeVarInt_loop m [])) r OR m"
proof (induction "unat m" arbitrary: m r rule: less_induct)
  case less
  show ?case
  proof (cases "m = 0")
    case True then show ?thesis by (simp add: loop_zero)
  next
    case False
    let ?k = "length (encodeVarInt_loop (drop_bit 7 m) [])"
    have "push_bit 7 (push_bit (7 * ?k) r OR drop_bit 7 m) OR (m AND 0x7F)
        = push_bit (7 * Suc ?k) r OR (push_bit 7 (drop_bit 7 m) OR (m AND 0x7F))"
      by (simp add: push_bit_or push_bit_push_bit or.assoc add.commute del: push_bit_and)
    then show ?thesis
      using less [OF unat_drop7_less [OF False]] False
      by (simp add: loop_unfold low7_ucast recombine7 del: mult_Suc_right)
  qed
qed

lemma digits_last_nonzero:
  "m \<noteq> 0 \<Longrightarrow> encodeVarInt_loop m [] \<noteq> []"
  by (simp add: loop_unfold)

lemma decodeVarInt_encodeVarInt: "decodeVarInt (encodeVarInt v @ rest) = Inr (v, rest)"
proof (cases "v = 0")
  case True
  then show ?thesis by (simp add: decodeVarInt_def encodeVarInt_def)
next
  case False
  let ?ds = "encodeVarInt_loop (drop_bit 7 v) []"
  have enc: "encodeVarInt v = map (\<lambda>b. b OR 0x80) (rev ?ds) @ [ucast (v AND 0x7F)]"
    using False by (simp add: encodeVarInt_def setContinuationBits_def loop_unfold)
  show ?thesis
    unfolding decodeVarInt_def enc
    by (simp add: decode_cont_prefix fold_digits digit_clear low7_ucast recombine7 Let_def)
qed




lemma digit_value: "unat ((ucast ((m :: u64) AND 0x7F) :: byte) AND 0x7F) = unat m mod 128"
proof -
  have m7: "(0x7F :: u64) = mask 7" "(0x7F :: byte) = mask 7" by (simp_all add: mask_eq_exp_minus_1)
  have "unat ((ucast (m AND mask 7) :: byte) AND mask 7) = take_bit 7 (unat m)"
    by (rule bit_eqI) (auto simp: bit_simps)
  then show ?thesis unfolding m7 by (simp add: take_bit_eq_mod)
qed

lemma cont_value: "unat (((b :: byte) OR 0x80) AND 0x7F) = unat (b AND 0x7F)"
proof -
  have "((b :: byte) OR 0x80) AND 0x7F = b AND 0x7F"
  proof -
    have "(0x7F :: byte) = mask 7" by (simp add: mask_eq_exp_minus_1)
    moreover have "(0x80 :: byte) = push_bit 7 1" by simp
    ultimately show ?thesis by (simp only: bit_eq_iff bit_simps) (auto simp: bit_simps)
  qed
  then show ?thesis by simp
qed

lemma base128_digits:
  "foldl (\<lambda>a b. 128 * a + unat (b AND 0x7F)) 0 (rev (encodeVarInt_loop m [])) = unat m"
proof (induction "unat m" arbitrary: m rule: less_induct)
  case less
  show ?case
  proof (cases "m = 0")
    case True then show ?thesis by (simp add: loop_zero)
  next
    case False
    have "unat (drop_bit 7 m) = unat m div 128"
      using unat_drop_bit_eq [of 7 m] drop_bit_eq_div [of 7 "unat m"] by simp
    then show ?thesis
      using less [OF unat_drop7_less [OF False]] False
      by (simp add: loop_unfold digit_value)
  qed
qed

lemma base128_cont:
  "foldl (\<lambda>a b. 128 * a + unat (b AND 0x7F)) a (map (\<lambda>b. b OR 0x80) (xs :: bytes))
     = foldl (\<lambda>a b. 128 * a + unat (b AND 0x7F)) a xs"
  by (induction xs arbitrary: a) (simp_all add: cont_value)

lemma encodeVarInt_nonzero:
  "v \<noteq> 0 \<Longrightarrow> encodeVarInt v =
     map (\<lambda>b. b OR 0x80) (rev (encodeVarInt_loop (drop_bit 7 v) [])) @ [ucast (v AND 0x7F)]"
  by (simp add: encodeVarInt_def setContinuationBits_def loop_unfold)

lemma encodeVarInt_base128:
  "foldl (\<lambda>a b. 128 * a + unat (b AND 0x7F)) 0 (encodeVarInt v) = unat v"
proof (cases "v = 0")
  case True then show ?thesis by (simp add: encodeVarInt_def)
next
  case False
  have "unat (drop_bit 7 v) = unat v div 128"
    using unat_drop_bit_eq [of 7 v] drop_bit_eq_div [of 7 "unat v"] by simp
  then show ?thesis
    by (simp add: encodeVarInt_nonzero [OF False] base128_cont base128_digits digit_value)
qed

lemma high_bit_set: "bit ((b :: byte) OR 0x80) 7"
  by (simp add: bit_simps)

lemma high_bit_clear: "\<not> bit (ucast ((v :: u64) AND 0x7F) :: byte) 7"
proof -
  have "(0x7F :: u64) = mask 7" by (simp add: mask_eq_exp_minus_1)
  then show ?thesis by (simp add: bit_simps)
qed

lemma encodeVarInt_continuation:
  "map (\<lambda>b. bit b 7) (encodeVarInt v) = replicate (length (encodeVarInt v) - 1) True @ [False]"
proof (cases "v = 0")
  case True then show ?thesis by (simp add: encodeVarInt_def)
next
  case False
  show ?thesis
    by (simp add: encodeVarInt_nonzero [OF False] high_bit_set high_bit_clear comp_def
        map_replicate_const)
qed


subsection \<open>Varint round trip\<close>

text \<open>
  Claim C7. For every 64-bit value \<open>v\<close>, decoding the varint encoding of \<open>v\<close> gives back
  \<open>v\<close> and consumes exactly the encoding (whatever bytes follow are left untouched). The
  encoding is big-endian base 128: the low seven bits of its bytes, read from the first
  byte on, are the base-128 digits of \<open>v\<close>; the high bit is set on every byte but the
  last; and zero is encoded as the single byte \<open>0x00\<close>.
\<close>

theorem varint_roundtrip:
  "decodeVarInt (encodeVarInt v @ rest) = Inr (v, rest)
   \<and> encodeVarInt 0 = [0]
   \<and> map (\<lambda>b. bit b 7) (encodeVarInt v) = replicate (length (encodeVarInt v) - 1) True @ [False]
   \<and> foldl (\<lambda>a b. 128 * a + unat (b AND 0x7F)) 0 (encodeVarInt v) = unat v"
  by (simp add: decodeVarInt_encodeVarInt encodeVarInt_continuation encodeVarInt_base128)
     (simp add: encodeVarInt_def)

subsection \<open>Delta timestamps\<close>


lemma decodeTimestampIn_encode:
  "decodeTimestampIn (fst (encodeTimestampOut t L) @ rest) L =
     Inr (if L \<le> t then t else MAX_U64, rest, if L \<le> t then t else MAX_U64)"
proof (cases "t = MAX_U64")
  case True
  have "L \<noteq> 0 \<Longrightarrow> L - 1 < L" by unat_arith
  moreover have "L \<le> - 1" by simp
  ultimately show ?thesis using True
    by (auto simp: decodeTimestampIn_def encodeTimestampOut_def decodeVarInt_encodeVarInt
        MAX_U64_def Let_def)
next
  case False
  show ?thesis
  proof (cases "t - L + 1 = 0")
    case True
    then have "t - L + 1 + (L - 1) = 0 + (L - 1)" by simp
    then have tl: "t = L - 1" by simp
    with False have "L \<noteq> 0" by (auto simp: MAX_U64_def)
    then have "L - 1 < L" by unat_arith
    then show ?thesis using True False tl
      by (auto simp: decodeTimestampIn_def encodeTimestampOut_def decodeVarInt_encodeVarInt
          MAX_U64_def Let_def)
  next
    case nz: False
    then show ?thesis using False
      by (auto simp: decodeTimestampIn_def encodeTimestampOut_def decodeVarInt_encodeVarInt
          Let_def not_le)
  qed
qed

lemma encodeTimestampOut_state:
  "snd (encodeTimestampOut t L) = t"
  by (simp add: encodeTimestampOut_def)

lemma timestamps_roundtrip_sorted:
  "sorted (L # ts) \<Longrightarrow>
   decodeTimestamps (length ts) (encodeTimestamps ts L @ rest) L = Inr (ts, rest)"
proof (induction ts arbitrary: L)
  case Nil
  then show ?case by simp
next
  case (Cons t ts)
  then have "L \<le> t" and "sorted (t # ts)" by auto
  then show ?case
    using Cons.IH [of t] decodeTimestampIn_encode [of t L "encodeTimestamps ts t @ rest"]
      encodeTimestampOut_state [of t L]
    by (simp add: case_prod_unfold)
qed

lemma timestamps_roundtrip_only_sorted:
  "decodeTimestamps (length ts) (encodeTimestamps ts L @ rest) L = Inr (ts, rest) \<Longrightarrow>
   sorted (L # ts)"
proof (induction ts arbitrary: L)
  case Nil
  then show ?case by simp
next
  case (Cons t ts)
  let ?t' = "if L \<le> t then t else MAX_U64"
  have dec: "decodeTimestampIn (encodeTimestamps (t # ts) L @ rest) L =
      Inr (?t', encodeTimestamps ts t @ rest, ?t')"
    using decodeTimestampIn_encode [of t L "encodeTimestamps ts t @ rest"]
      encodeTimestampOut_state [of t L]
    by (simp add: case_prod_unfold)
  from Cons.prems have hd: "?t' = t"
    unfolding length_Cons decodeTimestamps.simps dec
    by (auto split: sum.splits)
  have le: "L \<le> t"
  proof (rule ccontr)
    assume "\<not> L \<le> t"
    with hd have "t = MAX_U64" by simp
    then show False using \<open>\<not> L \<le> t\<close> by (simp add: MAX_U64_def)
  qed
  from Cons.prems have "decodeTimestamps (length ts) (encodeTimestamps ts t @ rest) t = Inr (ts, rest)"
    unfolding length_Cons decodeTimestamps.simps dec using le
    by (auto split: sum.splits)
  then have "sorted (t # ts)" by (rule Cons.IH)
  with le show ?case by auto
qed


text \<open>
  Claim C1, as stated, fails: the timestamps 10, 5 (a decrease) are encoded with a wrapped
  difference, and the decoder, which saturates when its addition wraps, returns
  10, \<open>U64_MAX\<close>.
\<close>

theorem timestamps_roundtrip_counterexample:
  "decodeTimestamps 2 (encodeTimestamps [10, 5] 0) 0 = Inr ([10, MAX_U64], [])
   \<and> decodeTimestamps 2 (encodeTimestamps [10, 5] 0) 0 \<noteq> Inr ([10, 5], [])"
proof -
  define e5 where "e5 = encodeTimestamps [5] 10"
  define e10 where "e10 = encodeTimestamps [10, 5] 0"
  have le: "(0 :: u64) \<le> 10" "\<not> (10 :: u64) \<le> 5" by simp_all
  have d1: "decodeTimestampIn e10 0 = Inr (10, e5, 10)"
    using decodeTimestampIn_encode [of 10 0 "encodeTimestamps [5] 10"] le
    by (simp add: e5_def e10_def encodeTimestampOut_state case_prod_unfold)
  have d2: "decodeTimestampIn e5 10 = Inr (MAX_U64, [], MAX_U64)"
    using decodeTimestampIn_encode [of 5 10 "[]"] le
    by (simp add: e5_def encodeTimestampOut_state case_prod_unfold)
  have r: "decodeTimestamps 2 e10 0 = Inr ([10, MAX_U64], [])"
    by (simp add: numeral_2_eq_2 d1 d2)
  have ne: "MAX_U64 \<noteq> 5" by (simp add: MAX_U64_def)
  show ?thesis unfolding e10_def [symmetric] r using ne by simp
qed

text \<open>
  Claim C1, amended. With both \<open>lastTimestamp\<close> states starting at 0, encoding a sequence
  of timestamps with \<open>encodeTimestampOut\<close> and decoding as many with \<open>decodeTimestampIn\<close>
  reproduces the sequence (and leaves the bytes that follow) exactly when the sequence is
  non-decreasing; this includes the \<open>U64_MAX\<close> sentinel. A timestamp smaller than its
  predecessor is not reproduced.
\<close>

theorem timestamps_roundtrip:
  "decodeTimestamps (length ts) (encodeTimestamps ts 0 @ rest) 0 = Inr (ts, rest)
   \<longleftrightarrow> sorted ts"
  using timestamps_roundtrip_sorted [of 0 ts rest] timestamps_roundtrip_only_sorted [of ts 0 rest]
  by auto

theorem timestamps_roundtrip_witness:
  "decodeTimestamps 3 (encodeTimestamps [7, 7, MAX_U64] 0) 0 = Inr ([7, 7, MAX_U64], [])"
proof -
  have len: "length [7, 7, MAX_U64] = 3" by simp
  have "sorted [7, 7, MAX_U64]" by (simp add: MAX_U64_def)
  then have "decodeTimestamps (length [7, 7, MAX_U64]) (encodeTimestamps [7, 7, MAX_U64] 0 @ []) 0
               = Inr ([7, 7, MAX_U64], [])"
    using timestamps_roundtrip [of "[7, 7, MAX_U64]" "[]"] by blast
  then show ?thesis unfolding len append_Nil2 .
qed

lemma decodeTimestampIn_mono:
  assumes "decodeTimestampIn encoded L = Inr (t, encoded', L')"
  shows "L \<le> t \<and> L' = t"
  using assms
  by (auto simp: decodeTimestampIn_def Let_def MAX_U64_def not_less split: sum.splits if_splits)



section \<open>Properties of the reconciliation pass\<close>


lemma encodeVarInt_small:
  "encodeVarInt 0 = [0]" "encodeVarInt 1 = [1]" "encodeVarInt 2 = [2]" "encodeVarInt 3 = [3]"
  by code_simp+

lemma decodeVarInt_small:
  "decodeVarInt (0 # q) = Inr (0, q)"
  "decodeVarInt (1 # q) = Inr (1, q)"
  "decodeVarInt (2 # q) = Inr (2, q)"
  "decodeVarInt (3 # q) = Inr (3, q)"
  by (simp_all add: decodeVarInt_def)

lemma XorElem_of_id_empty: "XorElem_of_id ts [] = Inr (XorElem_empty ts)"
  by (simp add: XorElem_of_id_def XorElem_empty_def)

lemma prependOutputs_append: "prependOutputs outs pending = outs @ pending"
proof (induction outs arbitrary: pending rule: rev_induct)
  case Nil
  then show ?case by (simp add: prependOutputs.simps)
next
  case (snoc x xs)
  then show ?case by (subst prependOutputs.simps) simp
qed

lemma new_seal:
  "8 \<le> n \<Longrightarrow> n \<le> 32 \<Longrightarrow>
   (case Negentropy_new n of Inl e \<Rightarrow> Inl e | Inr a \<Rightarrow> seal a) = Inr (emptySealed n)"
  by (simp add: Negentropy_new_def seal_def emptySealed_def sort_items_def)

lemma initiate_empty:
  "initiate (emptySealed n) 0 = Inr ([0, 0, 2, 0], (emptySealed n)\<lparr>isInitiator := True\<rparr>)"
  by (simp add: initiate_def emptySealed_def splitRange_def slice_def buildOutput_def buildRecord_def
      XorElem_less_def XorElem_eq_def XorElem_empty_def getId_def getId_sub_def encodeBound_def
      encodeTimestampOut_def encodeVarInt_small MAX_U64_def bytes_less.simps)

lemma upper_bound_empty: "upper_bound [] i v = i"
  by (simp add: upper_bound.simps)

lemma reconcileAux_loop_step:
  "query s \<noteq> [] \<Longrightarrow> reconcileRecord this s = Inr s' \<Longrightarrow>
   reconcileAux_loop this s = reconcileAux_loop this s'"
  by (subst reconcileAux_loop.simps) simp

lemma reconcileAux_loop_done:
  "query s = [] \<Longrightarrow> reconcileAux_loop this s = Inr s"
  by (subst reconcileAux_loop.simps) simp

lemma reconcileAux_loop_error:
  "query s \<noteq> [] \<Longrightarrow> reconcileRecord this s = Inl e \<Longrightarrow>
   reconcileAux_loop this s = Inl e"
  by (subst reconcileAux_loop.simps) simp

lemma decodeBound_sentinel_empty:
  "decodeBound (0 # 0 # q) 0 = Inr (XorElem_empty MAX_U64, q, MAX_U64)"
  by (simp add: decodeBound_def decodeTimestampIn_def decodeVarInt_small getBytes_def
      XorElem_of_id_empty MAX_U64_def Let_def)

lemma buildOutput_nothing_pending:
  "pendingOutputs this = [] \<Longrightarrow> buildOutput this = ([], this)"
  by (simp add: buildOutput_def)

lemma record_idList_empty:
  "reconcileRecord (emptySealed n)
     \<lparr>query = [0, 0, 2, 0], prevBound = XorElem_empty 0, prevIndex = 0, lastTimestampIn = 0,
      outputs = [], haveIds = [], needIds = []\<rparr>
   = Inr \<lparr>query = [], prevBound = XorElem_empty MAX_U64, prevIndex = 0,
          lastTimestampIn = MAX_U64,
          outputs = [\<lparr>start = XorElem_empty 0, end' = XorElem_empty MAX_U64,
                      payload = [3, 0, 0]\<rparr>],
          haveIds = [], needIds = []\<rparr>"
  by (simp add: reconcileRecord_def decodeBound_sentinel_empty decodeVarInt_small
      emptySealed_def upper_bound_empty modeIdList_def readTheirElems.simps slice_def
      encodeBitField_def encodeVarInt_small Let_def)

lemma reconcile_empty:
  "reconcile (emptySealed n) [0, 0, 2, 0] = Inr ([0, 0, 3, 0, 0], emptySealed n)"
proof -
  have "reconcileAux (emptySealed n) [0, 0, 2, 0] [] []
      = Inr ((emptySealed n)\<lparr>pendingOutputs :=
               [\<lparr>start = XorElem_empty 0, end' = XorElem_empty MAX_U64,
                 payload = [3, 0, 0]\<rparr>]\<rparr>, [], [])"
    unfolding reconcileAux_def reconcileStart_def
    by (simp add: reconcileAux_loop_step [OF _ record_idList_empty] reconcileAux_loop_done
        prependOutputs_append)
       (simp add: emptySealed_def)
  then show ?thesis
    by (simp add: reconcile_def emptySealed_def buildOutput_def buildRecord_def
      XorElem_less_def XorElem_eq_def XorElem_empty_def getId_def getId_sub_def encodeBound_def
      encodeTimestampOut_def encodeVarInt_small MAX_U64_def)
qed

lemma record_idListResponse_empty:
  "reconcileRecord ((emptySealed n)\<lparr>isInitiator := True\<rparr>)
     \<lparr>query = [0, 0, 3, 0, 0], prevBound = XorElem_empty 0, prevIndex = 0, lastTimestampIn = 0,
      outputs = [], haveIds = [], needIds = []\<rparr>
   = Inr \<lparr>query = [], prevBound = XorElem_empty MAX_U64, prevIndex = 0,
          lastTimestampIn = MAX_U64, outputs = [], haveIds = [], needIds = []\<rparr>"
  by (simp add: reconcileRecord_def decodeBound_sentinel_empty decodeVarInt_small
      emptySealed_def upper_bound_empty modeIdListResponse_def readNeedIds.simps slice_def
      getBytes_def Let_def)

lemma reconcile_haveNeed_empty:
  "reconcile_haveNeed ((emptySealed n)\<lparr>isInitiator := True\<rparr>) [0, 0, 3, 0, 0] [] []
     = Inr ([], (emptySealed n)\<lparr>isInitiator := True\<rparr>, [], [])"
proof -
  have "reconcileAux ((emptySealed n)\<lparr>isInitiator := True\<rparr>) [0, 0, 3, 0, 0] [] []
      = Inr ((emptySealed n)\<lparr>isInitiator := True\<rparr>, [], [])"
    unfolding reconcileAux_def reconcileStart_def
    by (simp add: reconcileAux_loop_step [OF _ record_idListResponse_empty]
        reconcileAux_loop_done prependOutputs_append)
       (simp add: emptySealed_def)
  then show ?thesis
    by (simp add: reconcile_haveNeed_def emptySealed_def buildOutput_def)
qed

lemma reconcile_haveNeed_empty_reply:
  "reconcile_haveNeed ((emptySealed n)\<lparr>isInitiator := True\<rparr>) [] [] []
     = Inr ([], (emptySealed n)\<lparr>isInitiator := True\<rparr>, [], [])"
proof -
  have "reconcileAux ((emptySealed n)\<lparr>isInitiator := True\<rparr>) [] [] []
      = Inr ((emptySealed n)\<lparr>isInitiator := True\<rparr>, [], [])"
    unfolding reconcileAux_def reconcileStart_def
    by (simp add: reconcileAux_loop_done prependOutputs_append)
       (simp add: emptySealed_def)
  then show ?thesis
    by (simp add: reconcile_haveNeed_def emptySealed_def buildOutput_def)
qed


subsection \<open>Empty against empty\<close>

text \<open>
  Claim C2, as stated, fails at the responder's reply: a responder answers every IdList
  record with an IdListResponse record, also when neither side has an item, so its reply
  to the initiator's frame is the five bytes \<open>00 00 03 00 00\<close> and not the empty frame.
\<close>

theorem empty_vs_empty_counterexample:
  "initiate (emptySealed 8) 0 = Inr ([0, 0, 2, 0], (emptySealed 8)\<lparr>isInitiator := True\<rparr>)
   \<and> reconcile (emptySealed 8) [0, 0, 2, 0] = Inr ([0, 0, 3, 0, 0], emptySealed 8)
   \<and> reconcile (emptySealed 8) [0, 0, 2, 0] \<noteq> Inr ([], emptySealed 8)"
  by (simp add: initiate_empty reconcile_empty)

text \<open>
  Claim C2, amended. Two peers are constructed with a valid \<open>idSize\<close> and sealed with no
  items. \<open>initiate()\<close> queues one IdList output with zero ids spanning
  \<open>((0, empty), (U64_MAX, empty))\<close> and returns the one-record frame \<open>00 00 02 00\<close>. The
  responder's \<open>reconcile\<close> on that frame returns the one-record frame \<open>00 00 03 00 00\<close>: an
  IdListResponse with zero ids and an empty bit field. The initiator's next \<open>reconcile\<close>
  on that reply, and likewise on an empty reply, returns empty \<open>have\<close>, empty \<open>need\<close> and
  an empty frame.
\<close>

theorem empty_vs_empty:
  assumes "8 \<le> n" and "n \<le> 32"
  shows "(case Negentropy_new n of Inl e \<Rightarrow> Inl e | Inr a \<Rightarrow> seal a) = Inr (emptySealed n)
    \<and> splitRange (emptySealed n) 0 (length (items (emptySealed n)))
          (XorElem_empty 0) (XorElem_empty MAX_U64) []
        = Inr [\<lparr>start = XorElem_empty 0, end' = XorElem_empty MAX_U64,
                payload = encodeVarInt 2 @ encodeVarInt 0\<rparr>]
    \<and> initiate (emptySealed n) 0
        = Inr ([0, 0, 2, 0], (emptySealed n)\<lparr>isInitiator := True\<rparr>)
    \<and> reconcile (emptySealed n) [0, 0, 2, 0] = Inr ([0, 0, 3, 0, 0], emptySealed n)
    \<and> reconcile_haveNeed ((emptySealed n)\<lparr>isInitiator := True\<rparr>) [0, 0, 3, 0, 0] [] []
        = Inr ([], (emptySealed n)\<lparr>isInitiator := True\<rparr>, [], [])
    \<and> reconcile_haveNeed ((emptySealed n)\<lparr>isInitiator := True\<rparr>) [] [] []
        = Inr ([], (emptySealed n)\<lparr>isInitiator := True\<rparr>, [], [])"
proof -
  have "splitRange (emptySealed n) 0 (length (items (emptySealed n)))
          (XorElem_empty 0) (XorElem_empty MAX_U64) []
        = Inr [\<lparr>start = XorElem_empty 0, end' = XorElem_empty MAX_U64,
                payload = encodeVarInt 2 @ encodeVarInt 0\<rparr>]"
    by (simp add: splitRange_def emptySealed_def slice_def)
  then show ?thesis
    using new_seal [OF assms] initiate_empty reconcile_empty reconcile_haveNeed_empty
      reconcile_haveNeed_empty_reply
    by simp
qed

theorem empty_vs_empty_witness:
  "(8 :: nat) \<le> 8 \<and> (8 :: nat) \<le> 32
   \<and> (case Negentropy_new 8 of Inl e \<Rightarrow> Inl e | Inr a \<Rightarrow> seal a) = Inr (emptySealed 8)
   \<and> initiate (emptySealed 8) 0 = Inr ([0, 0, 2, 0], (emptySealed 8)\<lparr>isInitiator := True\<rparr>)
   \<and> reconcile (emptySealed 8) [0, 0, 2, 0] = Inr ([0, 0, 3, 0, 0], emptySealed 8)
   \<and> reconcile_haveNeed ((emptySealed 8)\<lparr>isInitiator := True\<rparr>) [0, 0, 3, 0, 0] [] []
        = Inr ([], (emptySealed 8)\<lparr>isInitiator := True\<rparr>, [], [])"
  using empty_vs_empty [of 8] by simp



subsection \<open>Role and mode errors\<close>


lemma reconcileSteps_loop:
  "reconcileSteps this s s' \<Longrightarrow> reconcileAux_loop this s = reconcileAux_loop this s'"
  by (induction rule: reconcileSteps.induct) (simp_all add: reconcileAux_loop_step)

lemma reconcileAux_loop_reaches:
  "reconcileAux_loop this s = Inr sf \<Longrightarrow> reconcileSteps this s sf \<and> query sf = []"
proof (induction this s rule: reconcileAux_loop.induct)
  case (1 this s)
  show ?case
  proof (cases "query s = []")
    case True
    with "1.prems" show ?thesis
      by (simp add: reconcileAux_loop_done steps_refl)
  next
    case False
    with "1.prems" obtain s1 where r: "reconcileRecord this s = Inr s1"
      and l: "reconcileAux_loop this s1 = Inr sf"
      by (subst (asm) reconcileAux_loop.simps) (auto split: sum.splits)
    from "1.IH" [OF False r l] have st: "reconcileSteps this s1 sf" and q: "query sf = []"
      by simp_all
    have "reconcileSteps this s s1"
      using steps_step [OF steps_refl False r] .
    moreover have "reconcileSteps this s s1 \<Longrightarrow> reconcileSteps this s sf"
      using st by (induction rule: reconcileSteps.induct) (auto intro: steps_step)
    ultimately show ?thesis using q by simp
  qed
qed

lemma reconcileRecord_bad_mode:
  assumes "nextMode s = Inr mode" and "3 < mode"
  shows "reconcileRecord this s = Inl UnexpectedMode"
proof -
  from assms(2) have "mode \<noteq> 0" "mode \<noteq> 1" "mode \<noteq> 2" "mode \<noteq> 3" by auto
  with assms(1) show ?thesis
    unfolding nextMode_def reconcileRecord_def
    by (auto simp: Let_def split: sum.splits)
qed

lemma reconcileRecord_response_at_responder:
  assumes "nextMode s = Inr 3" and "\<not> isInitiator this"
  shows "reconcileRecord this s = Inl UnexpectedIdListResponse"
  using assms unfolding nextMode_def reconcileRecord_def
  by (auto simp: Let_def modeIdListResponse_def split: sum.splits)

lemma reconcileAux_fails:
  assumes "reconcileSteps this (reconcileStart q have need) s" and "query s \<noteq> []"
    and "nextMode s = Inr mode" and "3 < mode \<or> mode = 3 \<and> \<not> isInitiator this"
  shows "reconcileAux this q have need =
           Inl (if \<not> sealed this then NotSealed
                else if 3 < mode then UnexpectedMode else UnexpectedIdListResponse)"
proof -
  have "reconcileRecord this s =
          Inl (if 3 < mode then UnexpectedMode else UnexpectedIdListResponse)"
    using assms(3,4) reconcileRecord_bad_mode reconcileRecord_response_at_responder
    by auto
  then have "reconcileAux_loop this s =
          Inl (if 3 < mode then UnexpectedMode else UnexpectedIdListResponse)"
    using assms(2) by (rule reconcileAux_loop_error [rotated])
  then show ?thesis
    using reconcileSteps_loop [OF assms(1)] by (simp add: reconcileAux_def)
qed


text \<open>
  Claim C9. \<open>reconcile\<close> fails, and so returns no frame: (1) when an initiator calls the
  responder-style overload; (2) when a non-initiator calls the overload that returns
  have/need ids; and, for either overload, when the pass reaches a record (after any
  number of well-formed records) whose mode is (3) greater than 3, or (4) equal to 3 while
  the object is not an initiator. The error is the role error if the overload is the wrong
  one, \<open>not sealed\<close> if the object is not sealed, and otherwise \<open>unexpected mode\<close> or
  \<open>unexpected IdListResponse\<close>.
\<close>

theorem role_and_mode_errors:
  "(isInitiator this \<longrightarrow> reconcile this q = Inl InitiatorNotAskingForHaveNeed)
   \<and> (\<not> isInitiator this \<longrightarrow>
        reconcile_haveNeed this q have need = Inl NonInitiatorAskingForHaveNeed)
   \<and> (reconcileSteps this (reconcileStart q [] []) s \<and> query s \<noteq> [] \<and> nextMode s = Inr mode
        \<and> (3 < mode \<or> mode = 3 \<and> \<not> isInitiator this) \<longrightarrow>
        reconcile this q =
          Inl (if isInitiator this then InitiatorNotAskingForHaveNeed
               else if \<not> sealed this then NotSealed
               else if 3 < mode then UnexpectedMode else UnexpectedIdListResponse))
   \<and> (reconcileSteps this (reconcileStart q have need) s \<and> query s \<noteq> [] \<and> nextMode s = Inr mode
        \<and> (3 < mode \<or> mode = 3 \<and> \<not> isInitiator this) \<longrightarrow>
        reconcile_haveNeed this q have need =
          Inl (if \<not> isInitiator this then NonInitiatorAskingForHaveNeed
               else if \<not> sealed this then NotSealed
               else if 3 < mode then UnexpectedMode else UnexpectedIdListResponse))"
proof (intro conjI impI)
  assume "isInitiator this"
  then show "reconcile this q = Inl InitiatorNotAskingForHaveNeed"
    by (simp add: reconcile_def)
next
  assume "\<not> isInitiator this"
  then show "reconcile_haveNeed this q have need = Inl NonInitiatorAskingForHaveNeed"
    by (simp add: reconcile_haveNeed_def)
next
  assume a: "reconcileSteps this (reconcileStart q [] []) s \<and> query s \<noteq> []
      \<and> nextMode s = Inr mode \<and> (3 < mode \<or> mode = 3 \<and> \<not> isInitiator this)"
  then show "reconcile this q =
          Inl (if isInitiator this then InitiatorNotAskingForHaveNeed
               else if \<not> sealed this then NotSealed
               else if 3 < mode then UnexpectedMode else UnexpectedIdListResponse)"
    using reconcileAux_fails [of this q "[]" "[]" s mode]
    by (simp add: reconcile_def)
next
  assume a: "reconcileSteps this (reconcileStart q have need) s \<and> query s \<noteq> []
      \<and> nextMode s = Inr mode \<and> (3 < mode \<or> mode = 3 \<and> \<not> isInitiator this)"
  then show "reconcile_haveNeed this q have need =
          Inl (if \<not> isInitiator this then NonInitiatorAskingForHaveNeed
               else if \<not> sealed this then NotSealed
               else if 3 < mode then UnexpectedMode else UnexpectedIdListResponse)"
    using reconcileAux_fails [of this q "have" need s mode]
    by (simp add: reconcile_haveNeed_def)
qed


theorem role_and_mode_errors_witness:
  "reconcile ((emptySealed 8)\<lparr>isInitiator := True\<rparr>) [] = Inl InitiatorNotAskingForHaveNeed
   \<and> reconcile_haveNeed (emptySealed 8) [] [] [] = Inl NonInitiatorAskingForHaveNeed
   \<and> reconcile (emptySealed 8) [0, 0, 3] = Inl UnexpectedIdListResponse
   \<and> reconcile_haveNeed ((emptySealed 8)\<lparr>isInitiator := True\<rparr>) [0, 0, 4] [] []
       = Inl UnexpectedMode"
proof -
  have m3: "nextMode (reconcileStart [0, 0, 3] [] []) = Inr 3"
    by (simp add: nextMode_def reconcileStart_def decodeBound_sentinel_empty decodeVarInt_small)
  have m4: "nextMode (reconcileStart [0, 0, 4] [] []) = Inr 4"
    by (simp add: nextMode_def reconcileStart_def decodeBound_sentinel_empty decodeVarInt_def)
  have q: "query (reconcileStart [0, 0, 3] [] []) \<noteq> []" "query (reconcileStart [0, 0, 4] [] []) \<noteq> []"
    by (simp_all add: reconcileStart_def)
  have "reconcile ((emptySealed 8)\<lparr>isInitiator := True\<rparr>) [] = Inl InitiatorNotAskingForHaveNeed"
    using role_and_mode_errors [of "(emptySealed 8)\<lparr>isInitiator := True\<rparr>" "[]"]
    by (simp add: emptySealed_def)
  moreover have "reconcile_haveNeed (emptySealed 8) [] [] [] = Inl NonInitiatorAskingForHaveNeed"
    using role_and_mode_errors [of "emptySealed 8" "[]" "[]" "[]"]
    by (simp add: emptySealed_def)
  moreover have "reconcile (emptySealed 8) [0, 0, 3] = Inl UnexpectedIdListResponse"
    using role_and_mode_errors [of "emptySealed 8" "[0, 0, 3]" _ _
        "reconcileStart [0, 0, 3] [] []" 3] m3 q steps_refl
    by (simp add: emptySealed_def)
  moreover have "reconcile_haveNeed ((emptySealed 8)\<lparr>isInitiator := True\<rparr>) [0, 0, 4] [] []
       = Inl UnexpectedMode"
    using role_and_mode_errors [of "(emptySealed 8)\<lparr>isInitiator := True\<rparr>" "[0, 0, 4]" "[]" "[]"
        "reconcileStart [0, 0, 4] [] []" 4] m4 q steps_refl
    by (simp add: emptySealed_def)
  ultimately show ?thesis by simp
qed

subsection \<open>Decoded timestamps never decrease\<close>
lemma decodeBound_timestamp:
  assumes "decodeBound q L = Inr (b, q', L')"
  shows "L \<le> L' \<and> timestamp b = L'"
proof -
  from assms obtain ts q1 where d: "decodeTimestampIn q L = Inr (ts, q1, L')"
    and b: "timestamp b = ts"
    unfolding decodeBound_def
    by (auto simp: XorElem_of_id_def split: sum.splits if_splits)
  from decodeTimestampIn_mono [OF d] b show ?thesis by simp
qed

lemma reconcileRecord_timestamp:
  assumes "reconcileRecord this s = Inr s'"
  shows "lastTimestampIn s \<le> lastTimestampIn s' \<and> timestamp (prevBound s') = lastTimestampIn s'"
proof -
  from assms obtain b q1 l where "decodeBound (query s) (lastTimestampIn s) = Inr (b, q1, l)"
    and "lastTimestampIn s' = l" and "prevBound s' = b"
    unfolding reconcileRecord_def
    by (auto simp: Let_def split: sum.splits prod.splits)
  then show ?thesis using decodeBound_timestamp by auto
qed

lemma reconcileSteps_timestamp:
  "reconcileSteps this s s' \<Longrightarrow> lastTimestampIn s \<le> lastTimestampIn s'"
proof (induction rule: reconcileSteps.induct)
  case (steps_refl s)
  show ?case by simp
next
  case (steps_step s s' s'')
  then show ?case using reconcileRecord_timestamp [of this s' s''] by auto
qed

lemma decodeTimestampIn_saturates:
  assumes "decodeVarInt enc = Inr (v, enc')"
  shows "\<exists>t. decodeTimestampIn enc L = Inr (t, enc', t)
           \<and> unat t = min (2 ^ 64 - 1) (unat L + unat (if v = 0 then MAX_U64 else v - 1))"
proof -
  define d where "d = (if v = 0 then MAX_U64 else v - 1)"
  have dec: "decodeTimestampIn enc L =
      Inr (if d + L < L then MAX_U64 else d + L, enc', if d + L < L then MAX_U64 else d + L)"
    using assms by (simp add: decodeTimestampIn_def d_def Let_def)
  have ovf: "L \<le> L + d \<longleftrightarrow> unat L + unat d < 2 ^ 64"
    using no_olen_add_nat [of L d] by simp
  have "unat (if d + L < L then MAX_U64 else d + L) = min (2 ^ 64 - 1) (unat L + unat d)"
  proof (cases "d + L < L")
    case True
    then have "\<not> L \<le> L + d" by (simp add: add.commute not_le)
    then have "2 ^ 64 \<le> unat L + unat d" using ovf by simp
    moreover have "unat (- 1 :: u64) = 2 ^ 64 - 1"
      by (simp add: unsigned_minus_1_eq_mask mask_eq_exp_minus_1)
    ultimately show ?thesis using True by (simp add: MAX_U64_def)
  next
    case False
    then have "L \<le> L + d" by (simp add: add.commute not_less)
    then have lt: "unat L + unat d < 2 ^ 64" using ovf by simp
    then have "unat (L + d) = unat L + unat d"
      using unat_add_lem [of L d] by simp
    then show ?thesis using False lt by (simp add: add.commute)
  qed
  with dec show ?thesis unfolding d_def by auto
qed


lemma decodeTimestampIn_saturates_mono:
  assumes "decodeVarInt enc = Inr (v, enc')"
  shows "\<exists>t. decodeTimestampIn enc L = Inr (t, enc', t) \<and> L \<le> t
           \<and> unat t = min (2 ^ 64 - 1) (unat L + unat (if v = 0 then MAX_U64 else v - 1))"
proof -
  from decodeTimestampIn_saturates [OF assms, of L] obtain t where
    d: "decodeTimestampIn enc L = Inr (t, enc', t)"
    and u: "unat t = min (2 ^ 64 - 1) (unat L + unat (if v = 0 then MAX_U64 else v - 1))"
    by blast
  from decodeTimestampIn_mono [OF d] d u show ?thesis by blast
qed

text \<open>
  Claim C10. Within one pass of \<open>reconcileAux\<close> over a frame, \<open>lastTimestampIn\<close> never
  decreases: every state the loop reaches from a state \<open>s\<close> has a \<open>lastTimestampIn\<close> at
  least that of \<open>s\<close>; after each record the decoded bound's timestamp is the new
  \<open>lastTimestampIn\<close>; and a decoded timestamp is the previous one plus the transmitted
  delta, saturated at \<open>U64_MAX\<close>. This holds for every byte string.
\<close>

theorem decoder_timestamps_monotone:
  "(reconcileSteps this s s' \<longrightarrow> lastTimestampIn s \<le> lastTimestampIn s')
   \<and> (reconcileRecord this s = Inr s' \<longrightarrow>
        lastTimestampIn s \<le> lastTimestampIn s'
        \<and> timestamp (prevBound s') = lastTimestampIn s')
   \<and> (decodeVarInt enc = Inr (v, enc') \<longrightarrow>
        (\<exists>t. decodeTimestampIn enc L = Inr (t, enc', t) \<and> L \<le> t
           \<and> unat t = min (2 ^ 64 - 1) (unat L + unat (if v = 0 then MAX_U64 else v - 1))))"
  using reconcileSteps_timestamp [of this s s'] reconcileRecord_timestamp [of this s s']
    decodeTimestampIn_saturates_mono [of enc v enc' L]
  by blast

theorem decoder_timestamps_monotone_witness:
  "lastTimestampIn (reconcileStart [0, 0, 2, 0] [] []) \<le> MAX_U64
   \<and> (\<exists>t. decodeTimestampIn [5] (MAX_U64 - 1) = Inr (t, [], t) \<and> MAX_U64 - 1 \<le> t
         \<and> unat t = min (2 ^ 64 - 1) (unat (MAX_U64 - 1) + unat (5 - 1 :: u64)))"
proof -
  let ?s = "reconcileStart [0, 0, 2, 0] [] []"
  let ?s' = "\<lparr>query = [], prevBound = XorElem_empty MAX_U64, prevIndex = 0,
          lastTimestampIn = MAX_U64,
          outputs = [\<lparr>start = XorElem_empty 0, end' = XorElem_empty MAX_U64,
                      payload = [3, 0, 0]\<rparr>],
          haveIds = [], needIds = []\<rparr>"
  have r: "reconcileRecord (emptySealed 8) ?s = Inr ?s'"
    using record_idList_empty [of 8] by (simp add: reconcileStart_def)
  have st: "reconcileSteps (emptySealed 8) ?s ?s'"
    by (rule steps_step [OF steps_refl _ r]) (simp add: reconcileStart_def)
  have dv: "decodeVarInt [5] = Inr (5, [])"
    by (simp add: decodeVarInt_def)
  from decoder_timestamps_monotone [of "emptySealed 8" ?s ?s' "[5]" 5 "[]" "MAX_U64 - 1"] r st dv
  show ?thesis by simp
qed



section \<open>Properties of bounds\<close>





lemma getId_empty: "getId (XorElem_empty ts) = []" "timestamp (XorElem_empty ts) = ts"
  "XorElem.idSize (XorElem_empty ts) = 0"
  by (simp_all add: XorElem_empty_def getId_def)



















lemma encodeBound_wellformed:
  assumes "XorElem.idSize bound \<le> idSize this" and "XorElem.idSize bound \<le> length (id' bound)"
  shows "fst (encodeBound this bound l) =
           fst (encodeTimestampOut (timestamp bound) l)
             @ encodeVarInt (of_nat (length (getId bound))) @ getId bound"
  using assms
  by (simp add: encodeBound_def getId_sub_def getId_def case_prod_unfold)

text \<open>
  Claim C6 does not hold of the code. \<open>encodeBound\<close> writes \<open>bound.idSize\<close> as the length
  but only \<open>bound.getId(idSize)\<close>, at most the session's \<open>idSize\<close> bytes, as the id. A bound
  decoded from a peer's frame may have up to 32 id bytes whatever the session's
  \<open>idSize\<close>. With \<open>idSize = 8\<close>, the bound of timestamp 0 and nine id bytes \<open>01\<close> (which
  \<open>decodeBound\<close> accepts) is encoded as length 9 followed by eight bytes, which
  \<open>decodeBound\<close> cannot read back; a responder that receives such a bound in a Fingerprint
  record sends it out this way, and the mode byte of the record is then taken for the
  ninth id byte.
\<close>

theorem encodeBound_length_mismatch:
 "decodeBound [1, 9, 1, 1, 1, 1, 1, 1, 1, 1, 1] 0
    = Inr (\<lparr>timestamp = 0, idSize = 9, id' = replicate 9 1 @ replicate 23 0\<rparr>, [], 0)
  \<and> encodeBound (emptySealed 8)
      \<lparr>timestamp = 0, idSize = 9, id' = replicate 9 1 @ replicate 23 0\<rparr> 0
    = ([1, 9, 1, 1, 1, 1, 1, 1, 1, 1], 0)
  \<and> decodeBound [1, 9, 1, 1, 1, 1, 1, 1, 1, 1] 0 = Inl ParseEndsPrematurely
  \<and> reconcile (emptySealed 8) [0, 9, 1, 1, 1, 1, 1, 1, 1, 1, 1, 1, 9, 9, 9, 9, 9, 9, 9, 9]
    = Inr ([0, 9, 1, 1, 1, 1, 1, 1, 1, 1, 2, 0], emptySealed 8)"
  by code_simp

section \<open>Properties of the frame builder\<close>
lemma buildOutput_loop_frame:
  "buildOutput_loop this pending acc cb l = (out', rest) \<Longrightarrow>
   \<exists>k \<le> length pending.
      out' = acc @ concat (take k (frameRecords this pending cb l))
      \<and> rest = drop k pending
      \<and> (frameSizeLimit this \<noteq> 0 \<and> length acc \<le> frameSizeLimit this
            \<longrightarrow> length out' \<le> frameSizeLimit this)"
proof (induction pending arbitrary: acc cb l)
  case Nil
  then show ?case by simp
next
  case (Cons p pending)
  obtain o' l' where br: "buildRecord this p cb l = (o', l')"
    by (cases "buildRecord this p cb l")
  show ?case
  proof (cases "XorElem_less (start p) cb
      \<or> (frameSizeLimit this \<noteq> 0 \<and> length acc + length o' > frameSizeLimit this)")
    case True
    with Cons.prems br have "out' = acc" "rest = p # pending" by (auto split: if_splits)
    then show ?thesis by (intro exI [of _ 0]) simp
  next
    case False
    with Cons.prems br
    have rec: "buildOutput_loop this pending (acc @ o') (end' p) l' = (out', rest)"
      by (auto split: if_splits)
    from Cons.IH [OF rec] obtain k where k: "k \<le> length pending"
      and o: "out' = (acc @ o') @ concat (take k (frameRecords this pending (end' p) l'))"
      and r: "rest = drop k pending"
      and c: "frameSizeLimit this \<noteq> 0 \<and> length (acc @ o') \<le> frameSizeLimit this
            \<longrightarrow> length out' \<le> frameSizeLimit this"
      by blast
    have "frameSizeLimit this \<noteq> 0 \<longrightarrow> length (acc @ o') \<le> frameSizeLimit this"
      using False by auto
    with c have "frameSizeLimit this \<noteq> 0 \<longrightarrow> length out' \<le> frameSizeLimit this" by blast
    then show ?thesis
      using k o r br by (intro exI [of _ "Suc k"]) simp
  qed
qed


text \<open>
  Claim C3. When a non-zero \<open>frameSizeLimit\<close> is configured (\<open>initiate\<close> only accepts
  values of at least 1024), the frame returned by \<open>buildOutput\<close> is at most
  \<open>frameSizeLimit\<close> bytes long. The frame is the concatenation of the complete records
  (each with its Skip filler, if any) of the first \<open>k\<close> pending outputs, for some \<open>k\<close>, so
  no record is split; the other pending outputs stay queued, in order, and nothing else
  of the object changes.
\<close>

theorem frame_cap:
  assumes "frameSizeLimit this \<noteq> 0"
  shows "\<exists>k \<le> length (pendingOutputs this).
           buildOutput this =
             (concat (take k (frameRecords this (pendingOutputs this) (XorElem_empty 0) 0)),
              this\<lparr>pendingOutputs := drop k (pendingOutputs this)\<rparr>)
           \<and> length (fst (buildOutput this)) \<le> frameSizeLimit this"
proof -
  obtain out' rest where
    l: "buildOutput_loop this (pendingOutputs this) [] (XorElem_empty 0) 0 = (out', rest)"
    by (cases "buildOutput_loop this (pendingOutputs this) [] (XorElem_empty 0) 0")
  from buildOutput_loop_frame [OF l] assms obtain k where "k \<le> length (pendingOutputs this)"
    and "out' = concat (take k (frameRecords this (pendingOutputs this) (XorElem_empty 0) 0))"
    and "rest = drop k (pendingOutputs this)"
    and "length out' \<le> frameSizeLimit this"
    by auto
  then show ?thesis using l by (auto simp: buildOutput_def)
qed


theorem frame_cap_witness:
  "frameSizeLimit cappedPeer \<noteq> 0
   \<and> (\<exists>k \<le> length (pendingOutputs cappedPeer).
           buildOutput cappedPeer =
             (concat (take k (frameRecords cappedPeer (pendingOutputs cappedPeer)
                                (XorElem_empty 0) 0)),
              cappedPeer\<lparr>pendingOutputs := drop k (pendingOutputs cappedPeer)\<rparr>)
           \<and> length (fst (buildOutput cappedPeer)) \<le> frameSizeLimit cappedPeer)
   \<and> buildOutput cappedPeer =
        ([6, 0] @ replicate 1000 7,
         cappedPeer\<lparr>pendingOutputs :=
           [\<lparr>start = XorElem_empty 5, end' = XorElem_empty MAX_U64,
             payload = replicate 100 7\<rparr>]\<rparr>)"
proof -
  have nz: "frameSizeLimit cappedPeer \<noteq> 0" by (simp add: cappedPeer_def)
  have ev: "buildOutput cappedPeer =
        ([6, 0] @ replicate 1000 7,
         cappedPeer\<lparr>pendingOutputs :=
           [\<lparr>start = XorElem_empty 5, end' = XorElem_empty MAX_U64,
             payload = replicate 100 7\<rparr>]\<rparr>)"
    by code_simp
  from frame_cap [OF nz] nz ev show ?thesis by blast
qed



section \<open>Properties of range splitting\<close>

























text \<open>
  Every item of a \<open>Negentropy\<close> object was built by the constructor \<open>XorElem(ts, id)\<close>:
  the object starts without items, \<open>addItem\<close> appends what the constructor returns and
  \<open>seal\<close> reorders the items.
\<close>

lemma set_insert_sorted: "set (insert_sorted x ys) = insert x (set ys)"
  by (induction ys) auto

lemma set_sort_items: "set (sort_items xs) = set xs"
  unfolding sort_items_def by (induction xs) (simp_all add: set_insert_sorted)

lemma new_items: "Negentropy_new n = Inr a \<Longrightarrow> items a = []"
  by (auto simp: Negentropy_new_def split: if_splits)

lemma addItem_constructed:
  assumes a: "addItem this ts bs = Inr a"
    and built: "\<forall>e \<in> set (items this). \<exists>ts bs. XorElem_of_id ts bs = Inr e"
  shows "\<forall>e \<in> set (items a). \<exists>ts bs. XorElem_of_id ts bs = Inr e"
proof -
  from a obtain x where x: "XorElem_of_id ts bs = Inr x" and i: "items a = items this @ [x]"
    by (auto simp: addItem_def split: if_splits sum.splits)
  from x have "\<exists>ts bs. XorElem_of_id ts bs = Inr x" by (intro exI)
  with built show ?thesis unfolding i by simp
qed

lemma seal_constructed:
  assumes a: "seal this = Inr a"
    and built: "\<forall>e \<in> set (items this). \<exists>ts bs. XorElem_of_id ts bs = Inr e"
  shows "\<forall>e \<in> set (items a). \<exists>ts bs. XorElem_of_id ts bs = Inr e"
proof -
  from a have "set (items a) = set (items this)"
    by (auto simp: seal_def set_sort_items split: if_splits)
  with built show ?thesis by simp
qed







section \<open>Properties of IdList processing\<close>










lemma marked_keys: "map fst (marked S m) = map fst m"
  by (induction m) (auto simp: marked_def)
























subsection \<open>Duplicate items\<close>









end
